theory Spec2Isabelle
  imports Complex_Main "HOL-Library.AList" "HOL-Library.Sublist"
begin

section \<open>Values exchanged with the backend\<close>

text \<open>
  JSON values as Python holds them after \<^verbatim>\<open>json.loads\<close> or \<^verbatim>\<open>model_dump\<close>:
  a dict is an association list in insertion order, read with \<open>map_of\<close> (\<^verbatim>\<open>d.get(k)\<close>)
  and written with \<open>AList.update\<close> (\<^verbatim>\<open>d[k] = v\<close>).
\<close>

datatype json =
    JNull
  | JBool bool
  | JInt int
  | JFloat real
  | JStr string
  | JList "json list"
  | JObj "(string \<times> json) list"

type_synonym dict = "(string \<times> json) list"

text \<open>Python truthiness of the value returned by \<^verbatim>\<open>dict.get\<close> (\<open>None\<close> for a missing key).\<close>

fun truthy :: "json option \<Rightarrow> bool" where
  "truthy None = False"
| "truthy (Some JNull) = False"
| "truthy (Some (JBool b)) = b"
| "truthy (Some (JInt i)) = (i \<noteq> 0)"
| "truthy (Some (JFloat x)) = (x \<noteq> 0)"
| "truthy (Some (JStr s)) = (s \<noteq> [])"
| "truthy (Some (JList xs)) = (xs \<noteq> [])"
| "truthy (Some (JObj kvs)) = (kvs \<noteq> [])"

text \<open>config.py: the fields of \<^verbatim>\<open>Settings\<close> that the gateway core reads.\<close>

record settings =
  llama_server_url :: string
  max_concurrent_requests :: int
  default_model :: string

text \<open>
  What the backend puts on the wire in answer to a request. \<open>answer_json\<close> is what
  \<^verbatim>\<open>json.loads\<close> does on the body: \<open>Inr\<close> the decoded value, or \<open>Inl\<close> the message of the
  \<^verbatim>\<open>json.JSONDecodeError\<close> it raises when the body is not JSON.
\<close>

record answer =
  answer_status :: nat
  answer_reason :: string
  answer_text :: string
  answer_json :: "string + json"

text \<open>The \<^verbatim>\<open>httpx.Response\<close> built from it; \<open>url\<close> is the URL of the request.\<close>

record response =
  status_code :: nat
  reason_phrase :: string
  url :: string
  response_text :: string
  json_result :: "string + json"

text \<open>
  The exceptions that reach the gateway's code. \<^verbatim>\<open>httpx.HTTPStatusError\<close> and
  \<^verbatim>\<open>httpx.RequestError\<close> (connect, read and timeout failures) are siblings under
  \<^verbatim>\<open>httpx.HTTPError\<close>; \<^verbatim>\<open>json.JSONDecodeError\<close> is a \<^verbatim>\<open>ValueError\<close>;
  \<^verbatim>\<open>asyncio.CancelledError\<close> derives from \<^verbatim>\<open>BaseException\<close>, not from \<^verbatim>\<open>Exception\<close>.
\<close>

datatype exn =
    HTTPStatusError string response
  | RequestError string
  | JSONDecodeError string
  | ValueError string
  | CancelledError

fun str_exn :: "exn \<Rightarrow> string" where
  "str_exn (HTTPStatusError m r) = m"
| "str_exn (RequestError m) = m"
| "str_exn (JSONDecodeError m) = m"
| "str_exn (ValueError m) = m"
| "str_exn CancelledError = []"

fun is_Exception :: "exn \<Rightarrow> bool" where
  "is_Exception CancelledError = False"
| "is_Exception e = True"

fun is_RequestError :: "exn \<Rightarrow> bool" where
  "is_RequestError (RequestError m) = True"
| "is_RequestError e = False"

text \<open>What the network does to one request: the transport fails, or the backend answers.\<close>

datatype reply = Unreachable string | Answered answer

datatype body = NoBody | JsonBody dict | RawBody string

record request =
  http_method :: string
  target :: string
  payload :: body

text \<open>
  \<^verbatim>\<open>await client.get(url)\<close>, \<^verbatim>\<open>await client.post(url, json=...)\<close>: a transport failure raises
  \<^verbatim>\<open>httpx.RequestError\<close>; an answer of any status is returned as a response.
\<close>

definition send :: "request \<Rightarrow> reply \<Rightarrow> exn + response" where
  "send rq rp =
     (case rp of
        Unreachable m \<Rightarrow> Inl (RequestError m)
      | Answered a \<Rightarrow>
          Inr \<lparr>status_code = answer_status a, reason_phrase = answer_reason a,
               url = target rq, response_text = answer_text a, json_result = answer_json a\<rparr>)"

text \<open>Python's \<^verbatim>\<open>str\<close> of a non-negative integer, used when httpx formats a status code.\<close>

fun str_nat :: "nat \<Rightarrow> string" where
  "str_nat n =
     (if n < 10 then [char_of (48 + n)]
      else str_nat (n div 10) @ [char_of (48 + n mod 10)])"

declare str_nat.simps [simp del]

text \<open>
  \<^verbatim>\<open>response.raise_for_status()\<close> of httpx: nothing for a 2xx status, otherwise
  \<^verbatim>\<open>HTTPStatusError\<close> whose message names the error type, the status code, the reason phrase
  and the URL, followed by a line pointing to the documentation of the status code
  (a redirect with a location gets one more line, not modelled). The body is not part of it.
\<close>

definition is_success :: "response \<Rightarrow> bool" where
  "is_success r = (200 \<le> status_code r \<and> status_code r \<le> 299)"

definition error_type :: "nat \<Rightarrow> string" where
  "error_type code =
     (if code div 100 = 1 then ''Informational response''
      else if code div 100 = 3 then ''Redirect response''
      else if code div 100 = 4 then ''Client error''
      else if code div 100 = 5 then ''Server error''
      else ''Invalid status code'')"

definition status_message :: "response \<Rightarrow> string" where
  "status_message r =
     error_type (status_code r) @ '' '' @ [CHR 0x27] @ str_nat (status_code r) @ '' ''
       @ reason_phrase r @ [CHR 0x27] @ '' for url '' @ [CHR 0x27] @ url r @ [CHR 0x27, CHR 0x0A]
       @ ''For more information check: https://developer.mozilla.org/en-US/docs/Web/HTTP/Status/''
       @ str_nat (status_code r)"

definition raise_for_status :: "response \<Rightarrow> exn + unit" where
  "raise_for_status r =
     (if is_success r then Inr () else Inl (HTTPStatusError (status_message r) r))"

definition response_json :: "response \<Rightarrow> exn + json" where
  "response_json r = (case json_result r of Inl m \<Rightarrow> Inl (JSONDecodeError m) | Inr j \<Rightarrow> Inr j)"

section \<open>proxy.py: the calls that need no permit\<close>

text \<open>Sequencing inside a \<^verbatim>\<open>try\<close> body: the first exception ends it.\<close>

definition and_then :: "exn + 'a \<Rightarrow> ('a \<Rightarrow> exn + 'b) \<Rightarrow> exn + 'b" where
  "and_then r f = (case r of Inl e \<Rightarrow> Inl e | Inr x \<Rightarrow> f x)"

text \<open>\<^verbatim>\<open>except httpx.RequestError\<close>: the handler runs for that class only; any other
  exception of the body leaves the function.\<close>

definition except_RequestError :: "exn + 'a \<Rightarrow> (exn \<Rightarrow> 'a) \<Rightarrow> exn + 'a" where
  "except_RequestError r h =
     (case r of
        Inl e \<Rightarrow> (if is_RequestError e then Inr (h e) else Inl e)
      | Inr x \<Rightarrow> Inr x)"

text \<open>\<^verbatim>\<open>LlamaServerProxy.health_check\<close>: GET \<^verbatim>\<open>{base_url}/health\<close>, decode the answer
  whatever its status.\<close>

definition health_check :: "settings \<Rightarrow> reply \<Rightarrow> exn + dict" where
  "health_check cfg rp =
     except_RequestError
       (and_then
          (send \<lparr>http_method = ''GET'', target = llama_server_url cfg @ ''/health'',
                 payload = NoBody\<rparr> rp)
          (\<lambda>r. and_then (response_json r)
             (\<lambda>j. Inr [(''status'', JStr ''ok''), (''llama_server'', j)])))
       (\<lambda>e. [(''status'', JStr ''error''), (''error'', JStr (str_exn e))])"

text \<open>\<^verbatim>\<open>LlamaServerProxy.list_models\<close>: GET \<^verbatim>\<open>{base_url}/v1/models\<close>; the fallback is one
  entry named after \<^verbatim>\<open>settings.default_model\<close>.\<close>

definition fallback_models :: "settings \<Rightarrow> json" where
  "fallback_models cfg =
     JObj [(''object'', JStr ''list''),
           (''data'', JList [JObj [(''id'', JStr (default_model cfg)),
                                   (''object'', JStr ''model''),
                                   (''owned_by'', JStr ''local'')]])]"

definition list_models :: "settings \<Rightarrow> reply \<Rightarrow> exn + json" where
  "list_models cfg rp =
     except_RequestError
       (and_then
          (send \<lparr>http_method = ''GET'', target = llama_server_url cfg @ ''/v1/models'',
                 payload = NoBody\<rparr> rp)
          response_json)
       (\<lambda>e. fallback_models cfg)"

section \<open>main.py: the routes\<close>

text \<open>\<^verbatim>\<open>GET /health\<close>: awaits \<^verbatim>\<open>proxy.health_check()\<close> with no handler of its own.\<close>

definition health :: "settings \<Rightarrow> reply \<Rightarrow> exn + dict" where
  "health cfg rp =
     (case health_check cfg rp of
        Inl e \<Rightarrow> Inl e
      | Inr backend_health \<Rightarrow>
          Inr [(''status'', JStr ''ok''),
               (''backend'', JObj backend_health),
               (''config'', JObj [(''max_concurrent_requests'', JInt (max_concurrent_requests cfg)),
                                  (''default_model'', JStr (default_model cfg))])])"

text \<open>\<^verbatim>\<open>ChatMessage\<close> and \<^verbatim>\<open>ChatCompletionRequest\<close>; \<open>extra\<close> holds the fields that
  \<^verbatim>\<open>extra = "allow"\<close> lets through.\<close>

record chat_message =
  role :: string
  content :: string

record chat_completion_request =
  model :: "string option"
  messages :: "chat_message list"
  temperature :: "real option"
  top_p :: "real option"
  max_tokens :: "int option"
  stream :: bool
  extra :: dict

definition dump_message :: "chat_message \<Rightarrow> json" where
  "dump_message m = JObj [(''role'', JStr (role m)), (''content'', JStr (content m))]"

definition optional_field :: "string \<Rightarrow> json option \<Rightarrow> dict" where
  "optional_field k v = (case v of None \<Rightarrow> [] | Some j \<Rightarrow> [(k, j)])"

text \<open>\<^verbatim>\<open>request.model_dump(exclude_none=True)\<close>: declared fields in declaration order, then
  the extra fields; every field whose value is \<open>None\<close> is left out.\<close>

definition model_dump_exclude_none :: "chat_completion_request \<Rightarrow> dict" where
  "model_dump_exclude_none rq =
     optional_field ''model'' (map_option JStr (model rq))
     @ [(''messages'', JList (map dump_message (messages rq)))]
     @ optional_field ''temperature'' (map_option JFloat (temperature rq))
     @ optional_field ''top_p'' (map_option JFloat (top_p rq))
     @ optional_field ''max_tokens'' (map_option JInt (max_tokens rq))
     @ [(''stream'', JBool (stream rq))]
     @ filter (\<lambda>kv. snd kv \<noteq> JNull) (extra rq)"

text \<open>Lines 110 to 114 of \<^verbatim>\<open>chat_completions\<close>: the body handed to the proxy.\<close>

definition request_body :: "settings \<Rightarrow> chat_completion_request \<Rightarrow> dict" where
  "request_body cfg rq =
     (let body = model_dump_exclude_none rq in
      if \<not> truthy (map_of body ''model'')
      then AList.update ''model'' (JStr (default_model cfg)) body
      else body)"

text \<open>
  \<^verbatim>\<open>LlamaServerProxy.chat_completions\<close>, the part inside the permit: POST the body, raise for
  a non-2xx status, decode the answer. Both handlers log and re-raise.
\<close>

definition chat_request :: "settings \<Rightarrow> dict \<Rightarrow> request" where
  "chat_request cfg body =
     \<lparr>http_method = ''POST'', target = llama_server_url cfg @ ''/v1/chat/completions'',
      payload = JsonBody body\<rparr>"

definition proxy_chat_completions :: "settings \<Rightarrow> dict \<Rightarrow> reply \<Rightarrow> exn + json" where
  "proxy_chat_completions cfg body rp =
     and_then (send (chat_request cfg body) rp)
       (\<lambda>r. and_then (raise_for_status r) (\<lambda>u. response_json r))"

text \<open>
  What a route gives the caller: a JSON response with its status, or the
  \<^verbatim>\<open>HTTPException\<close> it raises (status and detail). \<^verbatim>\<open>except Exception\<close> does not
  catch \<^verbatim>\<open>CancelledError\<close>.
\<close>

datatype http_result = JSONResponse json nat | HTTPException nat string

definition bad_gateway :: "exn + json \<Rightarrow> exn + http_result" where
  "bad_gateway outcome =
     (case outcome of
        Inr result \<Rightarrow> Inr (JSONResponse result 200)
      | Inl e \<Rightarrow>
          (if is_Exception e
           then Inr (HTTPException 502 (''Backend error: '' @ str_exn e))
           else Inl e))"

text \<open>\<^verbatim>\<open>POST /v1/chat/completions\<close> for a request with \<^verbatim>\<open>stream\<close> false: the \<^verbatim>\<open>try\<close> of
  the route around \<^verbatim>\<open>await proxy.chat_completions(request_body)\<close>.\<close>

definition chat_completions :: "settings \<Rightarrow> chat_completion_request \<Rightarrow> reply \<Rightarrow> exn + http_result" where
  "chat_completions cfg rq rp = bad_gateway (proxy_chat_completions cfg (request_body cfg rq) rp)"

section \<open>The admission gate and the calls it guards\<close>

text \<open>
  \<^verbatim>\<open>asyncio.Semaphore\<close>: a counter and a FIFO of the tasks blocked in \<^verbatim>\<open>acquire\<close>, here
  by task number. The constructor refuses a negative value. \<^verbatim>\<open>acquire\<close> takes a slot at
  once unless the semaphore is \<^verbatim>\<open>locked()\<close>, and then waits in the queue; \<^verbatim>\<open>release\<close>
  adds one to the counter and wakes the first waiter, taking the slot on its behalf. (asyncio
  keeps a woken waiter in its queue until that task runs again, so that a call arriving in
  between waits behind it even when a slot is free; here the woken waiter leaves the queue at
  once and such a call takes the free slot.)
\<close>

record semaphore =
  sem_value :: int
  sem_waiters :: "nat list"

definition Semaphore :: "int \<Rightarrow> exn + semaphore" where
  "Semaphore v =
     (if v < 0 then Inl (ValueError ''Semaphore initial value must be >= 0'')
      else Inr \<lparr>sem_value = v, sem_waiters = []\<rparr>)"

definition locked :: "semaphore \<Rightarrow> bool" where
  "locked s = (sem_value s = 0 \<or> sem_waiters s \<noteq> [])"

definition wake_up_next :: "semaphore \<Rightarrow> semaphore \<times> nat option" where
  "wake_up_next s =
     (case sem_waiters s of
        [] \<Rightarrow> (s, None)
      | w # ws \<Rightarrow> (s\<lparr>sem_value := sem_value s - 1, sem_waiters := ws\<rparr>, Some w))"

definition release :: "semaphore \<Rightarrow> semaphore \<times> nat option" where
  "release s = wake_up_next (s\<lparr>sem_value := sem_value s + 1\<rparr>)"

text \<open>
  The calls that reach the backend through the gateway: \<^verbatim>\<open>proxy.chat_completions\<close> and
  \<^verbatim>\<open>proxy.chat_completions_stream\<close> with the body to forward, and the route
  \<^verbatim>\<open>proxy_fallback\<close> with the method, the path below \<^verbatim>\<open>/v1/\<close> and the raw body.
\<close>

datatype call = Unary dict | Stream dict | Fallback string string string

fun chat_call :: "call \<Rightarrow> bool" where
  "chat_call (Unary b) = True"
| "chat_call (Stream b) = True"
| "chat_call (Fallback m p b) = False"

fun backend_request :: "settings \<Rightarrow> call \<Rightarrow> request" where
  "backend_request cfg (Unary b) = chat_request cfg b"
| "backend_request cfg (Stream b) = chat_request cfg b"
| "backend_request cfg (Fallback m p b) =
     \<lparr>http_method = m, target = llama_server_url cfg @ ''/v1/'' @ p, payload = RawBody b\<rparr>"

text \<open>
  Lines 116 to 125 of the route \<^verbatim>\<open>chat_completions\<close>: the proxy call it makes, streamed or
  unary as the request asks, with the body built above.
\<close>

definition chat_completions_call :: "settings \<Rightarrow> chat_completion_request \<Rightarrow> call" where
  "chat_completions_call cfg rq =
     (if stream rq then Stream (request_body cfg rq) else Unary (request_body cfg rq))"

text \<open>
  One call of the state machine of the specification: waiting in \<^verbatim>\<open>acquire\<close>, woken with
  a slot but not yet resumed, awaiting the backend's answer, relaying the chunks of an open
  stream, or over.
\<close>

datatype outcome = Returned json | Exhausted | Raised exn

datatype status = Queued | Admitted | InFlight | Streaming | Finished outcome

fun outcome_of :: "exn + json \<Rightarrow> outcome" where
  "outcome_of (Inl e) = Raised e"
| "outcome_of (Inr j) = Returned j"

text \<open>What an observer of the gate and of the backend sees, in order.\<close>

datatype action =
    Acquire nat
  | Release nat
  | BackendCall nat request
  | Yield nat string

text \<open>
  The process: the module global \<^verbatim>\<open>_inference_semaphore\<close>, the calls by task number in
  order of arrival, and the actions so far.
\<close>

record gateway =
  inference_semaphore :: "semaphore option"
  tasks :: "(nat \<times> call \<times> status) list"
  trace :: "action list"

definition boot :: gateway where
  "boot = \<lparr>inference_semaphore = None, tasks = [], trace = []\<rparr>"

text \<open>\<^verbatim>\<open>get_semaphore\<close>: the global, created on first use with
  \<^verbatim>\<open>settings.max_concurrent_requests\<close> slots.\<close>

definition get_semaphore :: "settings \<Rightarrow> gateway \<Rightarrow> exn + semaphore \<times> gateway" where
  "get_semaphore cfg g =
     (case inference_semaphore g of
        None \<Rightarrow>
          and_then (Semaphore (max_concurrent_requests cfg))
            (\<lambda>s. Inr (s, g\<lparr>inference_semaphore := Some s\<rparr>))
      | Some s \<Rightarrow> Inr (s, g))"

text \<open>\<^verbatim>\<open>lifespan\<close>, up to its \<^verbatim>\<open>yield\<close>: the semaphore is created before any request is
  served (DNS registration does not touch the gate).\<close>

definition lifespan_startup :: "settings \<Rightarrow> exn + gateway" where
  "lifespan_startup cfg = and_then (get_semaphore cfg boot) (\<lambda>sg. Inr (snd sg))"

definition add_task :: "nat \<Rightarrow> call \<Rightarrow> status \<Rightarrow> gateway \<Rightarrow> gateway" where
  "add_task t c st g = g\<lparr>tasks := tasks g @ [(t, c, st)]\<rparr>"

definition set_status :: "nat \<Rightarrow> status \<Rightarrow> gateway \<Rightarrow> gateway" where
  "set_status t st g =
     g\<lparr>tasks := map (\<lambda>(u, c, s). if u = t then (u, c, st) else (u, c, s)) (tasks g)\<rparr>"

definition emit :: "action list \<Rightarrow> gateway \<Rightarrow> gateway" where
  "emit as g = g\<lparr>trace := trace g @ as\<rparr>"

text \<open>
  Entering \<^verbatim>\<open>async with semaphore\<close> in task \<open>t\<close>: with a free slot the task goes on to its
  backend call in the same step of the event loop; otherwise it waits in the queue.
\<close>

definition enter_guard :: "settings \<Rightarrow> nat \<Rightarrow> call \<Rightarrow> gateway \<Rightarrow> gateway" where
  "enter_guard cfg t c g =
     (case get_semaphore cfg g of
        Inl e \<Rightarrow> add_task t c (Finished (Raised e)) g
      | Inr (s, g1) \<Rightarrow>
          (if locked s
           then add_task t c Queued
                  (g1\<lparr>inference_semaphore := Some (s\<lparr>sem_waiters := sem_waiters s @ [t]\<rparr>)\<rparr>)
           else emit [Acquire t, BackendCall t (backend_request cfg c)]
                  (add_task t c InFlight
                     (g1\<lparr>inference_semaphore := Some (s\<lparr>sem_value := sem_value s - 1\<rparr>)\<rparr>))))"

text \<open>
  Leaving \<^verbatim>\<open>async with semaphore\<close> in task \<open>t\<close>, on whatever path: \<^verbatim>\<open>__aexit__\<close> releases,
  and a woken waiter holds the slot from then on.
\<close>

definition leave_guard :: "nat \<Rightarrow> gateway \<Rightarrow> gateway" where
  "leave_guard t g =
     (case inference_semaphore g of
        None \<Rightarrow> g
      | Some s \<Rightarrow>
          (case release s of
             (s', None) \<Rightarrow> emit [Release t] (g\<lparr>inference_semaphore := Some s'\<rparr>)
           | (s', Some w) \<Rightarrow>
               emit [Release t, Acquire w]
                 (set_status w Admitted (g\<lparr>inference_semaphore := Some s'\<rparr>))))"

definition exit_guard :: "nat \<Rightarrow> outcome \<Rightarrow> gateway \<Rightarrow> gateway" where
  "exit_guard t out g = set_status t (Finished out) (leave_guard t g)"

text \<open>A task cancelled while it waits leaves the queue and takes no slot.\<close>

definition abandon :: "nat \<Rightarrow> gateway \<Rightarrow> gateway" where
  "abandon t g =
     (case inference_semaphore g of
        None \<Rightarrow> g
      | Some s \<Rightarrow> g\<lparr>inference_semaphore := Some (s\<lparr>sem_waiters := removeAll t (sem_waiters s)\<rparr>)\<rparr>)"

text \<open>
  What happens to the process, one event at a time: a call arrives, the event loop resumes a
  woken task, the backend answers a call (or the connection fails), a chunk of a streamed
  body arrives, the body ends, the connection breaks mid-stream, or the caller of a task
  goes away (the task is cancelled, or the consumer of a stream stops pulling).

  A chunk event carries the bytes that arrived from the backend and what the content decoder
  of \<^verbatim>\<open>response.aiter_bytes()\<close> makes of them: the same bytes when the body has no
  \<^verbatim>\<open>Content-Encoding\<close>, the decompressed bytes (possibly none yet) when the backend
  compresses. What the decoder still holds at the end of the body comes as a last chunk event
  with no bytes from the backend.
\<close>

datatype event =
    Arrive nat call
  | Resume nat
  | Respond nat reply
  | Chunk nat string string
  | EndOfStream nat
  | StreamError nat string
  | Cancel nat

text \<open>
  The body of \<^verbatim>\<open>chat_completions_stream\<close> up to the loop: open the stream, raise for a
  non-2xx status.
\<close>

definition open_stream :: "settings \<Rightarrow> dict \<Rightarrow> reply \<Rightarrow> exn + unit" where
  "open_stream cfg b rp = and_then (send (chat_request cfg b) rp) raise_for_status"

text \<open>\<^verbatim>\<open>proxy_fallback\<close>: forward, decode the answer whatever its status.\<close>

definition forward :: "settings \<Rightarrow> call \<Rightarrow> reply \<Rightarrow> exn + json" where
  "forward cfg c rp = and_then (send (backend_request cfg c) rp) response_json"

text \<open>
  The loop of \<^verbatim>\<open>chat_completions_stream\<close> on one item of \<^verbatim>\<open>response.aiter_bytes()\<close>:
  the decoded chunk is yielded as it is. The iterator gives no empty chunk, so decoded
  bytes of length zero yield nothing.
\<close>

definition relay :: "nat \<Rightarrow> string \<Rightarrow> action list" where
  "relay t x = (if x = [] then [] else [Yield t x])"

definition lookup :: "gateway \<Rightarrow> nat \<Rightarrow> (call \<times> status) option" where
  "lookup g t = map_of (tasks g) t"

text \<open>\<open>None\<close>: the event cannot happen in this state.\<close>

fun step :: "settings \<Rightarrow> event \<Rightarrow> gateway \<Rightarrow> gateway option" where
  "step cfg (Arrive t c) g =
     (case lookup g t of
        Some k \<Rightarrow> None
      | None \<Rightarrow>
          (if chat_call c then Some (enter_guard cfg t c g)
           else Some (emit [BackendCall t (backend_request cfg c)] (add_task t c InFlight g))))"
| "step cfg (Resume t) g =
     (case lookup g t of
        Some (c, Admitted) \<Rightarrow>
          Some (emit [BackendCall t (backend_request cfg c)] (set_status t InFlight g))
      | _ \<Rightarrow> None)"
| "step cfg (Respond t rp) g =
     (case lookup g t of
        Some (Unary b, InFlight) \<Rightarrow>
          Some (exit_guard t (outcome_of (proxy_chat_completions cfg b rp)) g)
      | Some (Stream b, InFlight) \<Rightarrow>
          (case open_stream cfg b rp of
             Inl e \<Rightarrow> Some (exit_guard t (Raised e) g)
           | Inr u \<Rightarrow> Some (set_status t Streaming g))
      | Some (Fallback m p b, InFlight) \<Rightarrow>
          Some (set_status t (Finished (outcome_of (forward cfg (Fallback m p b) rp))) g)
      | _ \<Rightarrow> None)"
| "step cfg (Chunk t raw x) g =
     (case lookup g t of
        Some (Stream b, Streaming) \<Rightarrow> Some (emit (relay t x) g)
      | _ \<Rightarrow> None)"
| "step cfg (EndOfStream t) g =
     (case lookup g t of
        Some (Stream b, Streaming) \<Rightarrow> Some (exit_guard t Exhausted g)
      | _ \<Rightarrow> None)"
| "step cfg (StreamError t m) g =
     (case lookup g t of
        Some (Stream b, Streaming) \<Rightarrow> Some (exit_guard t (Raised (RequestError m)) g)
      | _ \<Rightarrow> None)"
| "step cfg (Cancel t) g =
     (case lookup g t of
        Some (c, Queued) \<Rightarrow> Some (set_status t (Finished (Raised CancelledError)) (abandon t g))
      | Some (c, Finished out) \<Rightarrow> None
      | Some (c, st) \<Rightarrow>
          (if chat_call c then Some (exit_guard t (Raised CancelledError) g)
           else Some (set_status t (Finished (Raised CancelledError)) g))
      | None \<Rightarrow> None)"

fun run :: "settings \<Rightarrow> event list \<Rightarrow> gateway \<Rightarrow> gateway option" where
  "run cfg [] g = Some g"
| "run cfg (e # es) g = (case step cfg e g of None \<Rightarrow> None | Some g' \<Rightarrow> run cfg es g')"

section \<open>Counting the calls at the gate\<close>

text \<open>
  A chat call holds a permit from the moment a slot is taken for it until it is over; its
  backend call is in flight while it awaits the answer or relays a stream.
\<close>

definition holds_permit :: "call \<times> status \<Rightarrow> bool" where
  "holds_permit k = (chat_call (fst k) \<and> (snd k = Admitted \<or> snd k = InFlight \<or> snd k = Streaming))"

definition calling :: "call \<times> status \<Rightarrow> bool" where
  "calling k = (chat_call (fst k) \<and> (snd k = InFlight \<or> snd k = Streaming))"

definition count_tasks :: "(call \<times> status \<Rightarrow> bool) \<Rightarrow> gateway \<Rightarrow> nat" where
  "count_tasks P g = length (filter (\<lambda>tk. P (snd tk)) (tasks g))"

definition in_flight :: "gateway \<Rightarrow> nat" where
  "in_flight g = count_tasks calling g"

definition permits_held :: "gateway \<Rightarrow> nat" where
  "permits_held g = count_tasks holds_permit g"

text \<open>A task that the semaphore may wake: a chat call still waiting in \<^verbatim>\<open>acquire\<close>.\<close>

definition waiting :: "gateway \<Rightarrow> nat \<Rightarrow> bool" where
  "waiting g w = (case lookup g w of Some (c, Queued) \<Rightarrow> chat_call c | _ \<Rightarrow> False)"

text \<open>The bookkeeping of the gate: counter plus permits held is the configured capacity,
  and the queue holds waiting chat calls only, each once.\<close>

definition gate_ok :: "settings \<Rightarrow> gateway \<Rightarrow> bool" where
  "gate_ok cfg g =
     (distinct (map fst (tasks g)) \<and>
      (case inference_semaphore g of
         None \<Rightarrow> False
       | Some s \<Rightarrow>
           0 \<le> sem_value s
           \<and> sem_value s + int (permits_held g) = max_concurrent_requests cfg
           \<and> distinct (sem_waiters s)
           \<and> list_all (waiting g) (sem_waiters s)))"

section \<open>The trace of a call\<close>

text \<open>The task an action belongs to, and the actions of one task in a trace.\<close>

fun actor :: "action \<Rightarrow> nat" where
  "actor (Acquire t) = t"
| "actor (Release t) = t"
| "actor (BackendCall t r) = t"
| "actor (Yield t x) = t"

definition actions_of :: "nat \<Rightarrow> action list \<Rightarrow> action list" where
  "actions_of t tr = filter (\<lambda>a. actor a = t) tr"

text \<open>The chunks yielded to the consumer, in order.\<close>

fun yielded :: "action list \<Rightarrow> string list" where
  "yielded [] = []"
| "yielded (Yield t x # as) = x # yielded as"
| "yielded (a # as) = yielded as"

text \<open>The chunks the backend delivered for the stream of task \<open>t\<close>, in order, as they came
  from the backend.\<close>

fun received :: "nat \<Rightarrow> event list \<Rightarrow> string list" where
  "received t [] = []"
| "received t (Chunk u raw x # es) = (if u = t then raw # received t es else received t es)"
| "received t (e # es) = received t es"

text \<open>The same chunks as the content decoder hands them on, the empty ones left out.\<close>

fun decoded :: "nat \<Rightarrow> event list \<Rightarrow> string list" where
  "decoded t [] = []"
| "decoded t (Chunk u raw x # es) =
     (if u = t \<and> x \<noteq> [] then x # decoded t es else decoded t es)"
| "decoded t (e # es) = decoded t es"

text \<open>The body of task \<open>t\<close> has no content encoding: the decoder hands on what came.\<close>

fun unencoded :: "nat \<Rightarrow> event list \<Rightarrow> bool" where
  "unencoded t [] = True"
| "unencoded t (Chunk u raw x # es) = ((u = t \<longrightarrow> x = raw) \<and> unencoded t es)"
| "unencoded t (e # es) = unencoded t es"

fun finished :: "status \<Rightarrow> bool" where
  "finished (Finished out) = True"
| "finished s = False"

text \<open>
  The actions of a guarded call, by its state: nothing while it waits; the slot taken; then
  the backend call; then the chunks relayed; and once it is over either nothing (it never got
  a slot), or the slot taken and given back, or the whole of the above closed by the release.
\<close>

fun permit_trace :: "request \<Rightarrow> nat \<Rightarrow> status \<Rightarrow> action list \<Rightarrow> bool" where
  "permit_trace rq t Queued p = (p = [])"
| "permit_trace rq t Admitted p = (p = [Acquire t])"
| "permit_trace rq t InFlight p = (p = [Acquire t, BackendCall t rq])"
| "permit_trace rq t Streaming p =
     (p = [Acquire t, BackendCall t rq] @ map (Yield t) (yielded p))"
| "permit_trace rq t (Finished out) p =
     (p = [] \<or> p = [Acquire t, Release t]
      \<or> p = [Acquire t, BackendCall t rq] @ map (Yield t) (yielded p) @ [Release t])"

text \<open>
  Every task's actions fit its state. A call through \<^verbatim>\<open>proxy_fallback\<close> has one action only,
  its backend call.
\<close>

definition task_ok :: "settings \<Rightarrow> gateway \<Rightarrow> nat \<Rightarrow> bool" where
  "task_ok cfg g t =
     (case lookup g t of
        None \<Rightarrow> actions_of t (trace g) = []
      | Some (c, s) \<Rightarrow>
          if chat_call c then permit_trace (backend_request cfg c) t s (actions_of t (trace g))
          else (s = InFlight \<or> finished s)
               \<and> actions_of t (trace g) = [BackendCall t (backend_request cfg c)])"

definition trace_ok :: "settings \<Rightarrow> gateway \<Rightarrow> bool" where
  "trace_ok cfg g = (\<forall>t. task_ok cfg g t)"

text \<open>\<^verbatim>\<open>queue_status\<close> reports the counter of the semaphore as the available slots.\<close>

definition available_slots :: "gateway \<Rightarrow> int option" where
  "available_slots g = map_option sem_value (inference_semaphore g)"


text \<open>
  The discipline of the gate on a trace: every backend call and every chunk relayed belongs
  to a task that holds a permit at that moment (\<open>hs\<close> are the holders so far).
\<close>

fun gated :: "nat list \<Rightarrow> action list \<Rightarrow> bool" where
  "gated hs [] = True"
| "gated hs (Acquire t # as) = gated (t # hs) as"
| "gated hs (Release t # as) = gated (removeAll t hs) as"
| "gated hs (BackendCall t rq # as) = (t \<in> set hs \<and> gated hs as)"
| "gated hs (Yield t x # as) = (t \<in> set hs \<and> gated hs as)"

text \<open>
  An event ends the call of task \<open>t\<close> with one release: it can happen, it leaves the call over
  with the given outcome, and then the trace holds one acquire and one release in the task's
  name, the release last of the task's actions.
\<close>

definition closes :: "settings \<Rightarrow> gateway \<Rightarrow> event \<Rightarrow> nat \<Rightarrow> outcome \<Rightarrow> bool" where
  "closes cfg g e t out =
     (case step cfg e g of
        None \<Rightarrow> False
      | Some g' \<Rightarrow>
          map_option snd (lookup g' t) = Some (Finished out)
          \<and> count_list (trace g') (Acquire t) = 1
          \<and> count_list (trace g') (Release t) = 1
          \<and> last (actions_of t (trace g')) = Release t)"

text \<open>
  Cancelling the call of task \<open>t\<close> while it waits: it can happen, the call is over, no slot
  was taken or given back in its name, and the counter is what it was.
\<close>

definition abandons :: "settings \<Rightarrow> gateway \<Rightarrow> nat \<Rightarrow> bool" where
  "abandons cfg g t =
     (case step cfg (Cancel t) g of
        None \<Rightarrow> False
      | Some g' \<Rightarrow>
          map_option snd (lookup g' t) = Some (Finished (Raised CancelledError))
          \<and> actions_of t (trace g') = []
          \<and> available_slots g' = available_slots g)"

section \<open>Sample inputs\<close>

definition demo_settings :: settings where
  "demo_settings =
     \<lparr>llama_server_url = ''http://127.0.0.1:8080'', max_concurrent_requests = 2,
      default_model = ''gpt-oss-20b''\<rparr>"

text \<open>A backend (or something answering in its place) that says \<^verbatim>\<open>ok\<close> in plain text.\<close>

definition plain_ok :: reply where
  "plain_ok =
     Answered \<lparr>answer_status = 200, answer_reason = ''OK'', answer_text = ''ok'',
               answer_json = Inl ''Expecting value: line 1 column 1 (char 0)''\<rparr>"

text \<open>The out-of-memory answer of the specification's example.\<close>

definition oom_body :: string where
  \<open>oom_body = ''{"error":"oom"}''\<close>

definition oom :: answer where
  "oom =
     \<lparr>answer_status = 500, answer_reason = ''Internal Server Error'', answer_text = oom_body,
      answer_json = Inr (JObj [(''error'', JStr ''oom'')])\<rparr>"

definition hello :: chat_completion_request where
  "hello =
     \<lparr>model = None, messages = [\<lparr>role = ''user'', content = ''hello''\<rparr>], temperature = None,
      top_p = None, max_tokens = None, stream = False, extra = []\<rparr>"

text \<open>The gateway of the sample settings after start-up, and with three chat calls at a
  gate of two slots.\<close>

definition hello_body :: dict where
  "hello_body = request_body demo_settings hello"

definition started :: gateway where
  "started =
     \<lparr>inference_semaphore = Some \<lparr>sem_value = 2, sem_waiters = []\<rparr>, tasks = [], trace = []\<rparr>"

definition three_calls :: "event list" where
  "three_calls = [Arrive 0 (Unary hello_body), Arrive 1 (Stream hello_body), Arrive 2 (Unary hello_body)]"

definition busy :: gateway where
  "busy =
     \<lparr>inference_semaphore = Some \<lparr>sem_value = 0, sem_waiters = [2]\<rparr>,
      tasks = [(0, Unary hello_body, InFlight), (1, Stream hello_body, InFlight),
               (2, Unary hello_body, Queued)],
      trace = [Acquire 0, BackendCall 0 (chat_request demo_settings hello_body),
               Acquire 1, BackendCall 1 (chat_request demo_settings hello_body)]\<rparr>"

text \<open>The backend accepts a streamed completion; its body arrives in chunks afterwards.\<close>

definition stream_opened :: reply where
  "stream_opened =
     Answered \<lparr>answer_status = 200, answer_reason = ''OK'', answer_text = [],
               answer_json = Inl ''Expecting value: line 1 column 1 (char 0)''\<rparr>"

definition hello_call :: request where
  "hello_call = chat_request demo_settings hello_body"

definition stream_start :: "event list" where
  "stream_start =
     [Arrive 0 (Stream hello_body), Respond 0 stream_opened, Chunk 0 ''data: a'' ''data: a'']"


definition stream_session :: "event list" where
  "stream_session = stream_start @ [Chunk 0 ''data: b'' ''data: b'', EndOfStream 0]"

definition streamed :: gateway where
  "streamed =
     \<lparr>inference_semaphore = Some \<lparr>sem_value = 2, sem_waiters = []\<rparr>,
      tasks = [(0, Stream hello_body, Finished Exhausted)],
      trace = [Acquire 0, BackendCall 0 hello_call, Yield 0 ''data: a'', Yield 0 ''data: b'',
               Release 0]\<rparr>"

text \<open>The answer to a completion that went well.\<close>

definition completion_json :: json where
  "completion_json = JObj [(''id'', JStr ''chatcmpl-1''), (''object'', JStr ''chat.completion'')]"

definition completion_ok :: answer where
  \<open>completion_ok =
     \<lparr>answer_status = 200, answer_reason = ''OK'',
      answer_text = ''{"id":"chatcmpl-1","object":"chat.completion"}'',
      answer_json = Inr completion_json\<rparr>\<close>

definition oom_response :: response where
  "oom_response =
     \<lparr>status_code = 500, reason_phrase = ''Internal Server Error'',
      url = ''http://127.0.0.1:8080/v1/chat/completions'', response_text = oom_body,
      json_result = Inr (JObj [(''error'', JStr ''oom'')])\<rparr>"

text \<open>A batch that leaves the guarded section on every path: an answer, an HTTP error, a
  network error, and a consumer that stops mid-stream.\<close>

definition batch :: "event list" where
  "batch =
     [Arrive 0 (Unary hello_body), Arrive 1 (Unary hello_body), Arrive 2 (Unary hello_body),
      Arrive 3 (Stream hello_body), Respond 0 (Answered completion_ok), Respond 1 (Answered oom),
      Resume 2, Resume 3, Respond 2 (Unreachable ''All connection attempts failed''),
      Respond 3 stream_opened, Chunk 3 ''data: a'' ''data: a'', Cancel 3]"

definition drained :: gateway where
  "drained =
     \<lparr>inference_semaphore = Some \<lparr>sem_value = 2, sem_waiters = []\<rparr>,
      tasks =
        [(0, Unary hello_body, Finished (Returned completion_json)),
         (1, Unary hello_body,
          Finished (Raised (HTTPStatusError (status_message oom_response) oom_response))),
         (2, Unary hello_body, Finished (Raised (RequestError ''All connection attempts failed''))),
         (3, Stream hello_body, Finished (Raised CancelledError))],
      trace =
        [Acquire 0, BackendCall 0 hello_call, Acquire 1, BackendCall 1 hello_call,
         Release 0, Acquire 2, Release 1, Acquire 3, BackendCall 2 hello_call,
         BackendCall 3 hello_call, Release 2, Yield 3 ''data: a'', Release 3]\<rparr>"

text \<open>A text completion sent to \<^verbatim>\<open>/v1/completions\<close>, which only the fallback route serves.\<close>

definition completion_body :: string where
  \<open>completion_body = ''{"prompt":"hi"}''\<close>

definition forwarded :: gateway where
  "forwarded =
     \<lparr>inference_semaphore = Some \<lparr>sem_value = 2, sem_waiters = []\<rparr>,
      tasks = [(0, Fallback ''POST'' ''completions'' completion_body, InFlight)],
      trace = [BackendCall 0 \<lparr>http_method = ''POST'',
                 target = ''http://127.0.0.1:8080/v1/completions'',
                 payload = RawBody completion_body\<rparr>]\<rparr>"

text \<open>
  A backend that compresses: the 33 bytes of the gzip member that holds the event
  \<^verbatim>\<open>data: hello\<close> with its blank line, and the 13 bytes the decoder makes of them.
\<close>

definition gzipped :: string where
  "gzipped =
     [CHR 0x1F, CHR 0x8B, CHR 0x08, CHR 0x00, CHR 0x00, CHR 0x00, CHR 0x00, CHR 0x00, CHR 0x02,
      CHR 0x03, CHR 0x4B, CHR 0x49, CHR 0x2C, CHR 0x49, CHR 0xB4, CHR 0x52, CHR 0xC8, CHR 0x48,
      CHR 0xCD, CHR 0xC9, CHR 0xC9, CHR 0xE7, CHR 0xE2, CHR 0x02, CHR 0x00, CHR 0x1D, CHR 0x73,
      CHR 0x9D, CHR 0xD4, CHR 0x0D, CHR 0x00, CHR 0x00, CHR 0x00]"

definition gunzipped :: string where
  "gunzipped = ''data: hello'' @ [CHR 0x0A, CHR 0x0A]"

definition compressed_stream :: "event list" where
  "compressed_stream =
     [Arrive 0 (Stream hello_body), Respond 0 stream_opened, Chunk 0 gzipped gunzipped]"

definition decompressed :: gateway where
  "decompressed =
     \<lparr>inference_semaphore = Some \<lparr>sem_value = 1, sem_waiters = []\<rparr>,
      tasks = [(0, Stream hello_body, Streaming)],
      trace = [Acquire 0, BackendCall 0 hello_call, Yield 0 gunzipped]\<rparr>"

section \<open>Properties of the relay's unguarded calls and of the routes\<close>

lemma health_check_cases:
  "health_check cfg (Unreachable m) = Inr [(''status'', JStr ''error''), (''error'', JStr m)]"
  "answer_json a = Inr j \<Longrightarrow>
     health_check cfg (Answered a) = Inr [(''status'', JStr ''ok''), (''llama_server'', j)]"
  "answer_json a = Inl x \<Longrightarrow> health_check cfg (Answered a) = Inl (JSONDecodeError x)"
  by (simp_all add: health_check_def send_def and_then_def except_RequestError_def
      response_json_def)

lemma list_models_cases:
  "list_models cfg (Unreachable m) = Inr (fallback_models cfg)"
  "answer_json a = Inr j \<Longrightarrow> list_models cfg (Answered a) = Inr j"
  "answer_json a = Inl x \<Longrightarrow> list_models cfg (Answered a) = Inl (JSONDecodeError x)"
  by (simp_all add: list_models_def send_def and_then_def except_RequestError_def
      response_json_def)

text \<open>
  C5. \<^verbatim>\<open>health_check\<close> is meant never to raise. It does when the answer's body is not JSON:
  the decoding error is not an \<^verbatim>\<open>httpx.RequestError\<close>, so the handler does not take it.
\<close>

theorem health_check_raises_on_plain_body:
  "health_check demo_settings plain_ok =
     Inl (JSONDecodeError ''Expecting value: line 1 column 1 (char 0)'')"
  by (simp add: plain_ok_def health_check_cases)

text \<open>
  C6. \<^verbatim>\<open>list_models\<close> is meant to return the backend's payload whenever the backend is
  reachable. A reachable backend whose body is not JSON makes it raise instead.
\<close>

theorem list_models_raises_on_plain_body:
  "list_models demo_settings plain_ok =
     Inl (JSONDecodeError ''Expecting value: line 1 column 1 (char 0)'')"
  by (simp add: plain_ok_def list_models_cases)

text \<open>
  C10. \<^verbatim>\<open>GET /health\<close> is meant to answer with status \<^verbatim>\<open>ok\<close> at the top level whatever
  the backend does. When \<^verbatim>\<open>health_check\<close> raises, the route raises with it and gives no
  payload.
\<close>

theorem health_raises_on_plain_body:
  "health demo_settings plain_ok =
     Inl (JSONDecodeError ''Expecting value: line 1 column 1 (char 0)'')"
  by (simp add: health_def plain_ok_def health_check_cases)

text \<open>Whenever the route does answer, the top-level status is \<^verbatim>\<open>ok\<close> and the result of the
  backend check sits under \<^verbatim>\<open>backend\<close>.\<close>

lemma health_payload:
  "health_check cfg rp = Inr d \<Longrightarrow>
     \<exists>p. health cfg rp = Inr p \<and> map_of p ''status'' = Some (JStr ''ok'')
        \<and> map_of p ''backend'' = Some (JObj d)"
  by (simp add: health_def)

lemma map_of_filter_absent: "k \<notin> fst ` set xs \<Longrightarrow> map_of (filter P xs) k = None"
  by (induction xs) auto

lemma model_dump_model:
  "''model'' \<notin> fst ` set (extra rq) \<Longrightarrow>
     map_of (model_dump_exclude_none rq) ''model'' = map_option JStr (model rq)"
  by (cases "model rq")
    (simp_all add: model_dump_exclude_none_def optional_field_def map_of_filter_absent
      split: option.splits)

text \<open>
  C7, as the code has it. The extra fields of a request never include a declared field. The
  body handed to the proxy then names the configured default model when the request has no
  model or an empty one, and the request's model otherwise.
\<close>

theorem request_body_model:
  "''model'' \<notin> fst ` set (extra rq) \<Longrightarrow>
     payload (backend_request cfg (chat_completions_call cfg rq)) = JsonBody (request_body cfg rq)
     \<and> map_of (request_body cfg rq) ''model'' =
         Some (JStr (case model rq of
                       None \<Rightarrow> default_model cfg
                     | Some m \<Rightarrow> if m = [] then default_model cfg else m))"
  by (cases "model rq")
    (simp_all add: request_body_def Let_def model_dump_model update_conv'
      chat_completions_call_def chat_request_def)

theorem request_body_model_witness:
  "payload (backend_request demo_settings (chat_completions_call demo_settings hello))
     = JsonBody (request_body demo_settings hello)
   \<and> map_of (request_body demo_settings hello) ''model'' = Some (JStr ''gpt-oss-20b'')
   \<and> map_of (request_body demo_settings (hello\<lparr>model := Some ''llama''\<rparr>)) ''model''
       = Some (JStr ''llama'')"
  using request_body_model [of hello demo_settings]
    request_body_model [of "hello\<lparr>model := Some ''llama''\<rparr>" demo_settings]
  by (simp add: hello_def demo_settings_def)

text \<open>C7, as stated, fails for a request that sets its model to the empty string.\<close>

theorem request_body_empty_model_counterexample:
  "model (hello\<lparr>model := Some []\<rparr>) = Some []
   \<and> map_of (request_body demo_settings (hello\<lparr>model := Some []\<rparr>)) ''model''
       = Some (JStr ''gpt-oss-20b'')
   \<and> map_of (request_body demo_settings (hello\<lparr>model := Some []\<rparr>)) ''model''
       \<noteq> Some (JStr [])"
  by (simp add: request_body_def Let_def model_dump_exclude_none_def optional_field_def
      hello_def demo_settings_def)

lemma proxy_chat_completions_cases:
  "proxy_chat_completions cfg b (Unreachable m) = Inl (RequestError m)"
  "\<not> (200 \<le> answer_status a \<and> answer_status a \<le> 299) \<Longrightarrow>
     proxy_chat_completions cfg b (Answered a) =
       Inl (HTTPStatusError
              (status_message \<lparr>status_code = answer_status a, reason_phrase = answer_reason a,
                 url = llama_server_url cfg @ ''/v1/chat/completions'',
                 response_text = answer_text a, json_result = answer_json a\<rparr>)
              \<lparr>status_code = answer_status a, reason_phrase = answer_reason a,
                 url = llama_server_url cfg @ ''/v1/chat/completions'',
                 response_text = answer_text a, json_result = answer_json a\<rparr>)"
  "200 \<le> answer_status a \<and> answer_status a \<le> 299 \<Longrightarrow>
     proxy_chat_completions cfg b (Answered a) =
       (case answer_json a of Inl x \<Rightarrow> Inl (JSONDecodeError x) | Inr j \<Rightarrow> Inr j)"
  by (auto simp: proxy_chat_completions_def send_def and_then_def raise_for_status_def
      is_success_def response_json_def chat_request_def)

lemma status_message_code: "sublist (str_nat (status_code r)) (status_message r)"
  unfolding status_message_def by (metis sublist_appendI append.assoc)

lemma str_nat_500: "str_nat 500 = ''500''"
  by code_simp

text \<open>
  C8, as the code has it. A unary chat completion that fails on the network, or on a status
  outside 2xx, is answered with 502 and the detail \<^verbatim>\<open>Backend error: \<close> followed by the
  message of the exception. For a status outside 2xx that message contains the status code,
  and the answer of the gateway is the same whatever the backend's body was.
\<close>

theorem chat_completions_bad_gateway:
  "chat_completions cfg rq (Unreachable m) = Inr (HTTPException 502 (''Backend error: '' @ m))
   \<and> (\<not> (200 \<le> answer_status a \<and> answer_status a \<le> 299) \<longrightarrow>
        (\<exists>e. proxy_chat_completions cfg (request_body cfg rq) (Answered a) = Inl e
            \<and> chat_completions cfg rq (Answered a) =
                 Inr (HTTPException 502 (''Backend error: '' @ str_exn e))
            \<and> sublist (str_nat (answer_status a)) (str_exn e))
        \<and> chat_completions cfg rq (Answered (a\<lparr>answer_text := x, answer_json := y\<rparr>)) =
            chat_completions cfg rq (Answered a))"
  using status_message_code [of "\<lparr>status_code = answer_status a,
    reason_phrase = answer_reason a, url = llama_server_url cfg @ ''/v1/chat/completions'',
    response_text = answer_text a, json_result = answer_json a\<rparr>"]
  by (simp add: chat_completions_def bad_gateway_def proxy_chat_completions_cases
      status_message_def)

theorem chat_completions_bad_gateway_witness:
  "chat_completions demo_settings hello (Unreachable ''All connection attempts failed'') =
      Inr (HTTPException 502 ''Backend error: All connection attempts failed'')
   \<and> chat_completions demo_settings hello (Answered oom) =
      Inr (HTTPException 502
        (''Backend error: Server error '' @ [CHR 0x27] @ ''500 Internal Server Error''
          @ [CHR 0x27] @ '' for url '' @ [CHR 0x27]
          @ ''http://127.0.0.1:8080/v1/chat/completions'' @ [CHR 0x27, CHR 0x0A]
          @ ''For more information check: https://developer.mozilla.org/en-US/docs/Web/HTTP/Status/500''))"
  using chat_completions_bad_gateway
    [of demo_settings hello "''All connection attempts failed''" oom]
  by (simp add: oom_def proxy_chat_completions_cases status_message_def error_type_def
      str_nat_500 demo_settings_def)

text \<open>C8, as stated, fails: the detail of the 502 does not carry the backend's body.\<close>

theorem bad_gateway_detail_counterexample:
  "(case chat_completions demo_settings hello (Answered oom) of
      Inr (HTTPException code detail) \<Rightarrow> code = 502 \<and> \<not> sublist (answer_text oom) detail
    | _ \<Rightarrow> False)"
  apply (simp add: chat_completions_def bad_gateway_def oom_def oom_body_def
      proxy_chat_completions_cases status_message_def error_type_def str_nat_500
      demo_settings_def)
  apply code_simp
  done

section \<open>The gate's bookkeeping is preserved by every event\<close>

lemma emit_simps [simp]:
  "tasks (emit as g) = tasks g"
  "inference_semaphore (emit as g) = inference_semaphore g"
  "trace (emit as g) = trace g @ as"
  "lookup (emit as g) = lookup g"
  by (simp_all add: emit_def lookup_def fun_eq_iff)

lemma add_task_simps [simp]:
  "tasks (add_task t c st g) = tasks g @ [(t, c, st)]"
  "inference_semaphore (add_task t c st g) = inference_semaphore g"
  "trace (add_task t c st g) = trace g"
  by (simp_all add: add_task_def)

lemma set_status_simps [simp]:
  "inference_semaphore (set_status t st g) = inference_semaphore g"
  "trace (set_status t st g) = trace g"
  "map fst (tasks (set_status t st g)) = map fst (tasks g)"
  by (simp_all add: set_status_def case_prod_unfold comp_def)

lemma sem_update_simps [simp]:
  "tasks (g\<lparr>inference_semaphore := x\<rparr>) = tasks g"
  "lookup (g\<lparr>inference_semaphore := x\<rparr>) = lookup g"
  "count_tasks P (g\<lparr>inference_semaphore := x\<rparr>) = count_tasks P g"
  "count_tasks P (emit as g) = count_tasks P g"
  by (simp_all add: lookup_def count_tasks_def fun_eq_iff)

lemma lookup_add_task:
  "lookup g t = None \<Longrightarrow> lookup (add_task t c st g) u = (if u = t then Some (c, st) else lookup g u)"
  by (auto simp: lookup_def map_add_def split: option.splits)

lemma map_of_set_status:
  "map_of (map (\<lambda>(u, c, s). if u = t then (u, c, st) else (u, c, s)) ts) v =
     (if v = t then map_option (\<lambda>k. (fst k, st)) (map_of ts t) else map_of ts v)"
  by (induction ts) auto

lemma lookup_set_status:
  "lookup (set_status t st g) v =
     (if v = t then map_option (\<lambda>k. (fst k, st)) (lookup g t) else lookup g v)"
  by (simp add: lookup_def set_status_def map_of_set_status)

lemma count_add_task:
  "count_tasks P (add_task t c st g) = count_tasks P g + (if P (c, st) then 1 else 0)"
  by (simp add: count_tasks_def)

lemma set_status_absent:
  "t \<notin> fst ` set ts \<Longrightarrow> map (\<lambda>(u, c, s). if u = t then (u, c, st) else (u, c, s)) ts = ts"
  by (induction ts) auto

lemma count_set_status_list:
  "distinct (map fst ts) \<Longrightarrow> map_of ts t = Some (c, s) \<Longrightarrow>
     length (filter (\<lambda>tk. P (snd tk)) (map (\<lambda>(u, c, s). if u = t then (u, c, st) else (u, c, s)) ts))
       + (if P (c, s) then 1 else 0)
     = length (filter (\<lambda>tk. P (snd tk)) ts) + (if P (c, st) then 1 else 0)"
proof (induction ts)
  case Nil
  then show ?case by simp
next
  case (Cons x ts)
  show ?case
  proof (cases "fst x = t")
    case True
    with Cons.prems have "t \<notin> fst ` set ts" and "snd x = (c, s)" by auto
    then show ?thesis using True
      by (cases x) (auto simp: set_status_absent)
  next
    case False
    with Cons show ?thesis by (cases x) auto
  qed
qed

lemma count_set_status:
  "distinct (map fst (tasks g)) \<Longrightarrow> lookup g t = Some (c, s) \<Longrightarrow>
     count_tasks P (set_status t st g) + (if P (c, s) then 1 else 0)
     = count_tasks P g + (if P (c, st) then 1 else 0)"
  using count_set_status_list [of "tasks g" t c s P st]
  by (simp add: count_tasks_def set_status_def lookup_def)


lemma waiting_set_status: "w \<noteq> u \<Longrightarrow> waiting (set_status u st g) w = waiting g w"
  by (simp add: waiting_def lookup_set_status)

lemma waiting_add_task:
  "lookup g t = None \<Longrightarrow> waiting g w \<Longrightarrow> waiting (add_task t c st g) w"
  by (auto simp: waiting_def lookup_add_task split: option.splits)

lemma waiting_simps [simp]:
  "waiting (emit as g) = waiting g"
  "waiting (g\<lparr>inference_semaphore := x\<rparr>) = waiting g"
  by (simp_all add: waiting_def fun_eq_iff)

lemma waiting_iff: "waiting g w \<longleftrightarrow> (\<exists>c. lookup g w = Some (c, Queued) \<and> chat_call c)"
proof (cases "lookup g w")
  case None
  then show ?thesis by (simp add: waiting_def)
next
  case (Some k)
  then show ?thesis by (cases k; cases "snd k") (auto simp: waiting_def)
qed

lemma gate_okD:
  assumes "gate_ok cfg g"
  obtains s where "inference_semaphore g = Some s" "0 \<le> sem_value s"
    "sem_value s + int (permits_held g) = max_concurrent_requests cfg"
    "distinct (sem_waiters s)" "list_all (waiting g) (sem_waiters s)"
    "distinct (map fst (tasks g))"
  using assms by (auto simp: gate_ok_def split: option.splits)

lemma gate_okI:
  "distinct (map fst (tasks g)) \<Longrightarrow> inference_semaphore g = Some s \<Longrightarrow> 0 \<le> sem_value s \<Longrightarrow>
   sem_value s + int (permits_held g) = max_concurrent_requests cfg \<Longrightarrow>
   distinct (sem_waiters s) \<Longrightarrow> list_all (waiting g) (sem_waiters s) \<Longrightarrow> gate_ok cfg g"
  by (simp add: gate_ok_def)

lemma lookup_None_fresh: "lookup g t = None \<Longrightarrow> t \<notin> fst ` set (tasks g)"
  by (simp add: lookup_def map_of_eq_None_iff)

lemma gate_ok_enter_guard:
  assumes ok: "gate_ok cfg g" and fresh: "lookup g t = None" and chat: "chat_call c"
  shows "gate_ok cfg (enter_guard cfg t c g)"
proof -
  from ok obtain s where s: "inference_semaphore g = Some s" "0 \<le> sem_value s"
    "sem_value s + int (permits_held g) = max_concurrent_requests cfg"
    "distinct (sem_waiters s)" "list_all (waiting g) (sem_waiters s)"
    "distinct (map fst (tasks g))" by (rule gate_okD)
  have get: "get_semaphore cfg g = Inr (s, g)" using s(1) by (simp add: get_semaphore_def)
  have t_new: "t \<notin> fst ` set (tasks g)" using fresh by (rule lookup_None_fresh)
  have t_not_waiting: "t \<notin> set (sem_waiters s)"
    using s(5) fresh by (auto simp: list_all_iff waiting_def)
  show ?thesis
  proof (cases "locked s")
    case True
    let ?g' = "add_task t c Queued (g\<lparr>inference_semaphore := Some (s\<lparr>sem_waiters := sem_waiters s @ [t]\<rparr>)\<rparr>)"
    have "gate_ok cfg ?g'"
    proof (rule gate_okI)
      show "distinct (map fst (tasks ?g'))" using s(6) t_new by simp
      show "inference_semaphore ?g' = Some (s\<lparr>sem_waiters := sem_waiters s @ [t]\<rparr>)" by simp
      show "0 \<le> sem_value (s\<lparr>sem_waiters := sem_waiters s @ [t]\<rparr>)" using s(2) by simp
      show "sem_value (s\<lparr>sem_waiters := sem_waiters s @ [t]\<rparr>) + int (permits_held ?g') = max_concurrent_requests cfg"
        using s(3) by (simp add: permits_held_def count_add_task holds_permit_def)
      show "distinct (sem_waiters (s\<lparr>sem_waiters := sem_waiters s @ [t]\<rparr>))"
        using s(4) t_not_waiting by simp
      show "list_all (waiting ?g') (sem_waiters (s\<lparr>sem_waiters := sem_waiters s @ [t]\<rparr>))"
        using s(5) fresh chat
        by (auto simp: list_all_iff waiting_add_task) (simp add: waiting_def lookup_add_task)
    qed
    then show ?thesis using True get by (simp add: enter_guard_def)
  next
    case False
    then have free: "sem_value s \<noteq> 0" "sem_waiters s = []" by (simp_all add: locked_def)
    let ?g' = "add_task t c InFlight (g\<lparr>inference_semaphore := Some (s\<lparr>sem_value := sem_value s - 1\<rparr>)\<rparr>)"
    have "gate_ok cfg ?g'"
    proof (rule gate_okI)
      show "distinct (map fst (tasks ?g'))" using s(6) t_new by simp
      show "inference_semaphore ?g' = Some (s\<lparr>sem_value := sem_value s - 1\<rparr>)" by simp
      show "0 \<le> sem_value (s\<lparr>sem_value := sem_value s - 1\<rparr>)" using s(2) free by simp
      show "sem_value (s\<lparr>sem_value := sem_value s - 1\<rparr>) + int (permits_held ?g') = max_concurrent_requests cfg"
        using s(3) chat by (simp add: permits_held_def count_add_task holds_permit_def)
      show "distinct (sem_waiters (s\<lparr>sem_value := sem_value s - 1\<rparr>))" using free by simp
      show "list_all (waiting ?g') (sem_waiters (s\<lparr>sem_value := sem_value s - 1\<rparr>))" using free by simp
    qed
    then have "gate_ok cfg (emit [Acquire t, BackendCall t (backend_request cfg c)] ?g')"
      by (simp add: gate_ok_def permits_held_def split: option.splits)
    then show ?thesis using False get by (simp add: enter_guard_def)
  qed
qed

lemma gate_ok_emit [simp]: "gate_ok cfg (emit as g) = gate_ok cfg g"
  by (simp add: gate_ok_def permits_held_def split: option.splits)

lemma gate_ok_add_other:
  assumes ok: "gate_ok cfg g" and fresh: "lookup g t = None" and other: "\<not> holds_permit (c, st)"
  shows "gate_ok cfg (add_task t c st g)"
proof -
  from ok obtain s where s: "inference_semaphore g = Some s" "0 \<le> sem_value s"
    "sem_value s + int (permits_held g) = max_concurrent_requests cfg"
    "distinct (sem_waiters s)" "list_all (waiting g) (sem_waiters s)"
    "distinct (map fst (tasks g))" by (rule gate_okD)
  show ?thesis
  proof (rule gate_okI)
    show "distinct (map fst (tasks (add_task t c st g)))"
      using s(6) lookup_None_fresh [OF fresh] by simp
    show "inference_semaphore (add_task t c st g) = Some s" using s(1) by simp
    show "0 \<le> sem_value s" by fact
    show "sem_value s + int (permits_held (add_task t c st g)) = max_concurrent_requests cfg"
      using s(3) other by (simp add: permits_held_def count_add_task)
    show "distinct (sem_waiters s)" by fact
    show "list_all (waiting (add_task t c st g)) (sem_waiters s)"
      using s(5) fresh by (auto simp: list_all_iff waiting_add_task)
  qed
qed

lemma gate_ok_set_status:
  assumes ok: "gate_ok cfg g" and t: "lookup g t = Some (c, s0)"
    and same: "holds_permit (c, st) = holds_permit (c, s0)" and nq: "\<not> waiting g t"
  shows "gate_ok cfg (set_status t st g)"
proof -
  from ok obtain s where s: "inference_semaphore g = Some s" "0 \<le> sem_value s"
    "sem_value s + int (permits_held g) = max_concurrent_requests cfg"
    "distinct (sem_waiters s)" "list_all (waiting g) (sem_waiters s)"
    "distinct (map fst (tasks g))" by (rule gate_okD)
  have cnt: "permits_held (set_status t st g) = permits_held g"
    using count_set_status [OF s(6) t, of holds_permit st] same by (simp add: permits_held_def)
  show ?thesis
  proof (rule gate_okI)
    show "distinct (map fst (tasks (set_status t st g)))" using s(6) by simp
    show "inference_semaphore (set_status t st g) = Some s" using s(1) by simp
    show "0 \<le> sem_value s" by fact
    show "sem_value s + int (permits_held (set_status t st g)) = max_concurrent_requests cfg"
      using s(3) cnt by simp
    show "distinct (sem_waiters s)" by fact
    show "list_all (waiting (set_status t st g)) (sem_waiters s)"
    proof -
      have "waiting (set_status t st g) w" if "w \<in> set (sem_waiters s)" for w
      proof -
        from that s(5) have "waiting g w" by (simp add: list_all_iff)
        with nq have "w \<noteq> t" by auto
        with \<open>waiting g w\<close> show ?thesis by (simp add: waiting_set_status)
      qed
      then show ?thesis by (simp add: list_all_iff)
    qed
  qed
qed


lemma set_status_emit: "set_status t st (emit as g) = emit as (set_status t st g)"
  by (simp add: set_status_def emit_def)

lemma holder_not_waiting: "lookup g t = Some (c, s0) \<Longrightarrow> s0 \<noteq> Queued \<Longrightarrow> \<not> waiting g t"
  by (simp add: waiting_iff)

lemma gate_ok_exit_guard:
  assumes ok: "gate_ok cfg g" and t: "lookup g t = Some (c, s0)" and held: "holds_permit (c, s0)"
  shows "gate_ok cfg (exit_guard t out g)"
proof -
  from ok obtain s where s: "inference_semaphore g = Some s" "0 \<le> sem_value s"
    "sem_value s + int (permits_held g) = max_concurrent_requests cfg"
    "distinct (sem_waiters s)" "list_all (waiting g) (sem_waiters s)"
    "distinct (map fst (tasks g))" by (rule gate_okD)
  from held have nq: "s0 \<noteq> Queued" by (auto simp: holds_permit_def)
  have t_nw: "\<not> waiting g t" using t nq by (rule holder_not_waiting)
  have drop: "int (permits_held (set_status t (Finished out) g)) + 1 = int (permits_held g)"
    using count_set_status [OF s(6) t, of holds_permit "Finished out"] held
    by (simp add: permits_held_def holds_permit_def)
  show ?thesis
  proof (cases "sem_waiters s")
    case Nil
    let ?s' = "s\<lparr>sem_value := sem_value s + 1\<rparr>"
    have eq: "exit_guard t out g =
        set_status t (Finished out) (emit [Release t] (g\<lparr>inference_semaphore := Some ?s'\<rparr>))"
      using s(1) Nil by (simp add: exit_guard_def leave_guard_def release_def wake_up_next_def)
    have "gate_ok cfg (set_status t (Finished out) (g\<lparr>inference_semaphore := Some ?s'\<rparr>))"
    proof (rule gate_okI)
      show "distinct (map fst (tasks (set_status t (Finished out) (g\<lparr>inference_semaphore := Some ?s'\<rparr>))))"
        using s(6) by simp
      show "inference_semaphore (set_status t (Finished out) (g\<lparr>inference_semaphore := Some ?s'\<rparr>)) = Some ?s'"
        by simp
      show "0 \<le> sem_value ?s'" using s(2) by simp
      have "permits_held (set_status t (Finished out) (g\<lparr>inference_semaphore := Some ?s'\<rparr>))
          = permits_held (set_status t (Finished out) g)"
        by (simp add: permits_held_def count_tasks_def set_status_def)
      then show "sem_value ?s' + int (permits_held (set_status t (Finished out) (g\<lparr>inference_semaphore := Some ?s'\<rparr>)))
          = max_concurrent_requests cfg"
        using s(3) drop by simp
      show "distinct (sem_waiters ?s')" using s(4) by simp
      show "list_all (waiting (set_status t (Finished out) (g\<lparr>inference_semaphore := Some ?s'\<rparr>))) (sem_waiters ?s')"
        using Nil by simp
    qed
    then show ?thesis unfolding eq by (simp add: set_status_emit)
  next
    case (Cons w ws)
    let ?s' = "s\<lparr>sem_value := sem_value s, sem_waiters := ws\<rparr>"
    let ?g1 = "set_status w Admitted (g\<lparr>inference_semaphore := Some ?s'\<rparr>)"
    have eq: "exit_guard t out g = set_status t (Finished out) (emit [Release t, Acquire w] ?g1)"
      using s(1) Cons by (simp add: exit_guard_def leave_guard_def release_def wake_up_next_def)
    from s(5) Cons have w_wait: "waiting g w" and ws_wait: "list_all (waiting g) ws" by simp_all
    from w_wait obtain cw where w: "lookup g w = Some (cw, Queued)" "chat_call cw"
      by (auto simp: waiting_iff)
    from w_wait t_nw have wt: "w \<noteq> t" by auto
    from s(4) Cons have w_ws: "w \<notin> set ws" and d_ws: "distinct ws" by simp_all
    have t_ws: "t \<notin> set ws" using ws_wait t_nw by (auto simp: list_all_iff)
    have up: "int (permits_held ?g1) = int (permits_held g) + 1"
      using count_set_status [of "g\<lparr>inference_semaphore := Some ?s'\<rparr>" w cw Queued holds_permit Admitted]
        s(6) w by (simp add: permits_held_def holds_permit_def)
    have t1: "lookup ?g1 t = Some (c, s0)" using t wt by (simp add: lookup_set_status)
    have d1: "distinct (map fst (tasks ?g1))" using s(6) by simp
    have down: "int (permits_held (set_status t (Finished out) ?g1)) + 1 = int (permits_held ?g1)"
      using count_set_status [OF d1 t1, of holds_permit "Finished out"] held
      by (simp add: permits_held_def holds_permit_def)
    have "gate_ok cfg (set_status t (Finished out) ?g1)"
    proof (rule gate_okI)
      show "distinct (map fst (tasks (set_status t (Finished out) ?g1)))" using s(6) by simp
      show "inference_semaphore (set_status t (Finished out) ?g1) = Some ?s'" by simp
      show "0 \<le> sem_value ?s'" using s(2) by simp
      show "sem_value ?s' + int (permits_held (set_status t (Finished out) ?g1)) = max_concurrent_requests cfg"
        using s(3) up down by simp
      show "distinct (sem_waiters ?s')" using d_ws by simp
      have "waiting (set_status t (Finished out) ?g1) v" if "v \<in> set ws" for v
      proof -
        from that ws_wait have "waiting g v" by (simp add: list_all_iff)
        moreover from that w_ws t_ws have "v \<noteq> w" "v \<noteq> t" by auto
        ultimately show ?thesis by (simp add: waiting_set_status)
      qed
      then show "list_all (waiting (set_status t (Finished out) ?g1)) (sem_waiters ?s')"
        by (simp add: list_all_iff)
    qed
    then show ?thesis unfolding eq by (simp add: set_status_emit)
  qed
qed

lemma gate_ok_abandon:
  assumes ok: "gate_ok cfg g" and t: "lookup g t = Some (c, Queued)"
  shows "gate_ok cfg (set_status t (Finished out) (abandon t g))"
proof -
  from ok obtain s where s: "inference_semaphore g = Some s" "0 \<le> sem_value s"
    "sem_value s + int (permits_held g) = max_concurrent_requests cfg"
    "distinct (sem_waiters s)" "list_all (waiting g) (sem_waiters s)"
    "distinct (map fst (tasks g))" by (rule gate_okD)
  let ?s' = "s\<lparr>sem_waiters := removeAll t (sem_waiters s)\<rparr>"
  let ?g1 = "g\<lparr>inference_semaphore := Some ?s'\<rparr>"
  have eq: "abandon t g = ?g1" using s(1) by (simp add: abandon_def)
  have cnt: "permits_held (set_status t (Finished out) ?g1) = permits_held g"
    using count_set_status [of ?g1 t c Queued holds_permit "Finished out"] s(6) t
    by (simp add: permits_held_def holds_permit_def)
  show ?thesis unfolding eq
  proof (rule gate_okI)
    show "distinct (map fst (tasks (set_status t (Finished out) ?g1)))" using s(6) by simp
    show "inference_semaphore (set_status t (Finished out) ?g1) = Some ?s'" by simp
    show "0 \<le> sem_value ?s'" using s(2) by simp
    show "sem_value ?s' + int (permits_held (set_status t (Finished out) ?g1)) = max_concurrent_requests cfg"
      using s(3) cnt by simp
    show "distinct (sem_waiters ?s')" using s(4) by (simp add: distinct_removeAll)
    have "waiting (set_status t (Finished out) ?g1) v" if "v \<in> set (removeAll t (sem_waiters s))" for v
    proof -
      from that have "v \<in> set (sem_waiters s)" "v \<noteq> t" by auto
      with s(5) show ?thesis by (simp add: list_all_iff waiting_set_status)
    qed
    then show "list_all (waiting (set_status t (Finished out) ?g1)) (sem_waiters ?s')"
      by (simp add: list_all_iff)
  qed
qed


lemma gate_ok_step:
  assumes ok: "gate_ok cfg g" and st: "step cfg e g = Some g'"
  shows "gate_ok cfg g'"
proof (cases e)
  case (Arrive t c)
  with st have fresh: "lookup g t = None" by (simp split: option.splits)
  show ?thesis
  proof (cases "chat_call c")
    case True
    with st Arrive fresh have "g' = enter_guard cfg t c g" by simp
    then show ?thesis using gate_ok_enter_guard [OF ok fresh True] by simp
  next
    case False
    with st Arrive fresh
    have "g' = emit [BackendCall t (backend_request cfg c)] (add_task t c InFlight g)" by simp
    then show ?thesis
      using gate_ok_add_other [OF ok fresh, of c InFlight] False by (simp add: holds_permit_def)
  qed
next
  case (Resume t)
  with st obtain c where t: "lookup g t = Some (c, Admitted)"
    and g': "g' = emit [BackendCall t (backend_request cfg c)] (set_status t InFlight g)"
    by (auto split: option.splits status.splits)
  have "gate_ok cfg (set_status t InFlight g)"
    by (rule gate_ok_set_status [OF ok t]) (simp_all add: holds_permit_def waiting_iff t)
  then show ?thesis using g' by simp
next
  case (Respond t rp)
  with st obtain c where t: "lookup g t = Some (c, InFlight)"
    by (auto split: option.splits status.splits call.splits)
  show ?thesis
  proof (cases c)
    case (Unary b)
    with st Respond t
    have "g' = exit_guard t (outcome_of (proxy_chat_completions cfg b rp)) g" by simp
    then show ?thesis using gate_ok_exit_guard [OF ok t] Unary by (simp add: holds_permit_def)
  next
    case (Stream b)
    show ?thesis
    proof (cases "open_stream cfg b rp")
      case (Inl x)
      with st Respond t Stream have "g' = exit_guard t (Raised x) g" by simp
      then show ?thesis using gate_ok_exit_guard [OF ok t] Stream by (simp add: holds_permit_def)
    next
      case (Inr u)
      with st Respond t Stream have "g' = set_status t Streaming g" by simp
      moreover have "gate_ok cfg (set_status t Streaming g)"
        by (rule gate_ok_set_status [OF ok t]) (simp_all add: holds_permit_def waiting_iff t)
      ultimately show ?thesis by simp
    qed
  next
    case (Fallback m p b)
    with st Respond t
    have "g' = set_status t (Finished (outcome_of (forward cfg (Fallback m p b) rp))) g" by simp
    moreover have "gate_ok cfg (set_status t (Finished (outcome_of (forward cfg (Fallback m p b) rp))) g)"
      by (rule gate_ok_set_status [OF ok t]) (simp_all add: holds_permit_def waiting_iff t Fallback)
    ultimately show ?thesis by simp
  qed
next
  case (Chunk t raw x)
  with st have "g' = emit (relay t x) g"
    by (auto split: option.splits status.splits call.splits)
  then show ?thesis using ok by simp
next
  case (EndOfStream t)
  with st obtain b where t: "lookup g t = Some (Stream b, Streaming)"
    and g': "g' = exit_guard t Exhausted g"
    by (auto split: option.splits status.splits call.splits)
  show ?thesis unfolding g' by (rule gate_ok_exit_guard [OF ok t]) (simp add: holds_permit_def)
next
  case (StreamError t m)
  with st obtain b where t: "lookup g t = Some (Stream b, Streaming)"
    and g': "g' = exit_guard t (Raised (RequestError m)) g"
    by (auto split: option.splits status.splits call.splits)
  show ?thesis unfolding g' by (rule gate_ok_exit_guard [OF ok t]) (simp add: holds_permit_def)
next
  case (Cancel t)
  with st obtain c s0 where t: "lookup g t = Some (c, s0)"
    by (auto split: option.splits)
  show ?thesis
  proof (cases s0)
    case Queued
    with st Cancel t have "g' = set_status t (Finished (Raised CancelledError)) (abandon t g)"
      by simp
    then show ?thesis using gate_ok_abandon [OF ok] t Queued by simp
  next
    case (Finished out)
    with st Cancel t show ?thesis by simp
  next
    case Admitted
    show ?thesis
    proof (cases "chat_call c")
      case True
      with st Cancel t Admitted have "g' = exit_guard t (Raised CancelledError) g" by simp
      then show ?thesis using gate_ok_exit_guard [OF ok t] True Admitted
        by (simp add: holds_permit_def)
    next
      case False
      with st Cancel t Admitted have "g' = set_status t (Finished (Raised CancelledError)) g" by simp
      moreover have "gate_ok cfg (set_status t (Finished (Raised CancelledError)) g)"
        by (rule gate_ok_set_status [OF ok t]) (simp_all add: holds_permit_def waiting_iff t False)
      ultimately show ?thesis by simp
    qed
  next
    case InFlight
    show ?thesis
    proof (cases "chat_call c")
      case True
      with st Cancel t InFlight have "g' = exit_guard t (Raised CancelledError) g" by simp
      then show ?thesis using gate_ok_exit_guard [OF ok t] True InFlight
        by (simp add: holds_permit_def)
    next
      case False
      with st Cancel t InFlight have "g' = set_status t (Finished (Raised CancelledError)) g" by simp
      moreover have "gate_ok cfg (set_status t (Finished (Raised CancelledError)) g)"
        by (rule gate_ok_set_status [OF ok t]) (simp_all add: holds_permit_def waiting_iff t False)
      ultimately show ?thesis by simp
    qed
  next
    case Streaming
    show ?thesis
    proof (cases "chat_call c")
      case True
      with st Cancel t Streaming have "g' = exit_guard t (Raised CancelledError) g" by simp
      then show ?thesis using gate_ok_exit_guard [OF ok t] True Streaming
        by (simp add: holds_permit_def)
    next
      case False
      with st Cancel t Streaming have "g' = set_status t (Finished (Raised CancelledError)) g" by simp
      moreover have "gate_ok cfg (set_status t (Finished (Raised CancelledError)) g)"
        by (rule gate_ok_set_status [OF ok t]) (simp_all add: holds_permit_def waiting_iff t False)
      ultimately show ?thesis by simp
    qed
  qed
qed

lemma gate_ok_run: "gate_ok cfg g \<Longrightarrow> run cfg es g = Some g' \<Longrightarrow> gate_ok cfg g'"
proof (induction es arbitrary: g)
  case Nil
  then show ?case by simp
next
  case (Cons e es)
  then show ?case by (auto split: option.splits dest: gate_ok_step)
qed

lemma lifespan_startup_ok:
  "0 \<le> max_concurrent_requests cfg \<Longrightarrow>
     lifespan_startup cfg =
       Inr \<lparr>inference_semaphore = Some \<lparr>sem_value = max_concurrent_requests cfg, sem_waiters = []\<rparr>,
            tasks = [], trace = []\<rparr>"
  by (simp add: lifespan_startup_def get_semaphore_def boot_def Semaphore_def and_then_def)

lemma gate_ok_startup:
  "0 \<le> max_concurrent_requests cfg \<Longrightarrow> lifespan_startup cfg = Inr g \<Longrightarrow> gate_ok cfg g"
  by (auto simp: lifespan_startup_ok gate_ok_def permits_held_def count_tasks_def)

section \<open>At most the configured number of calls in flight\<close>

lemma filter_length_mono:
  "(\<And>x. P x \<Longrightarrow> Q x) \<Longrightarrow> length (filter P xs) \<le> length (filter Q xs)"
  by (induction xs) auto

lemma filter_length_eq_member:
  assumes imp: "\<And>x. P x \<Longrightarrow> Q x"
    and len: "length (filter P xs) = length (filter Q xs)"
    and x: "x \<in> set xs" and q: "Q x"
  shows "P x"
  using len x
proof (induction xs)
  case Nil
  then show ?case by simp
next
  case (Cons y ys)
  have le: "length (filter P ys) \<le> length (filter Q ys)"
    using imp by (rule filter_length_mono)
  show ?case
  proof (cases "Q y")
    case True
    show ?thesis
    proof (cases "P y")
      case Py: True
      with True Cons show ?thesis using q by auto
    next
      case False
      with True Cons.prems(1) le show ?thesis by simp
    qed
  next
    case False
    then have "\<not> P y" using imp by auto
    with False Cons q show ?thesis by auto
  qed
qed

lemma calling_holds: "calling k \<Longrightarrow> holds_permit k"
  by (auto simp: calling_def holds_permit_def)

lemma in_flight_le_held: "in_flight g \<le> permits_held g"
  unfolding in_flight_def permits_held_def count_tasks_def
  by (rule filter_length_mono) (rule calling_holds)

lemma holder_is_calling:
  assumes eq: "in_flight g = permits_held g" and u: "lookup g u = Some k" and held: "holds_permit k"
  shows "calling k"
proof -
  from u have mem: "(u, k) \<in> set (tasks g)" by (simp add: lookup_def map_of_SomeD)
  have "calling (snd (u, k))"
  proof (rule filter_length_eq_member [where P = "\<lambda>tk. calling (snd tk)" and Q = "\<lambda>tk. holds_permit (snd tk)"])
    show "\<And>x. calling (snd x) \<Longrightarrow> holds_permit (snd x)" by (rule calling_holds)
    show "length (filter (\<lambda>tk. calling (snd tk)) (tasks g)) = length (filter (\<lambda>tk. holds_permit (snd tk)) (tasks g))"
      using eq by (simp add: in_flight_def permits_held_def count_tasks_def)
    show "(u, k) \<in> set (tasks g)" by fact
    show "holds_permit (snd (u, k))" using held by simp
  qed
  then show ?thesis by simp
qed

lemma gate_full:
  assumes ok: "gate_ok cfg g" and full: "int (in_flight g) = max_concurrent_requests cfg"
  obtains s where "inference_semaphore g = Some s" "sem_value s = 0" "in_flight g = permits_held g"
proof -
  from ok obtain s where s: "inference_semaphore g = Some s" "0 \<le> sem_value s"
    "sem_value s + int (permits_held g) = max_concurrent_requests cfg"
    by (rule gate_okD)
  have "int (in_flight g) \<le> int (permits_held g)" using in_flight_le_held [of g] by simp
  with s full have "sem_value s = 0" "in_flight g = permits_held g" by simp_all
  with s(1) that show ?thesis by blast
qed

lemma gate_bound:
  assumes ok: "gate_ok cfg g"
  shows "int (in_flight g) \<le> max_concurrent_requests cfg"
proof -
  from ok obtain s where s: "inference_semaphore g = Some s" "0 \<le> sem_value s"
    "sem_value s + int (permits_held g) = max_concurrent_requests cfg"
    by (rule gate_okD)
  have "int (in_flight g) \<le> int (permits_held g)" using in_flight_le_held [of g] by simp
  with s show ?thesis by simp
qed

lemma arrival_queued_when_full:
  assumes ok: "gate_ok cfg g" and full: "int (in_flight g) = max_concurrent_requests cfg"
    and chat: "chat_call c" and st: "step cfg (Arrive t c) g = Some g'"
  shows "lookup g' t = Some (c, Queued) \<and> in_flight g' = in_flight g"
proof -
  from ok full obtain s where s: "inference_semaphore g = Some s" "sem_value s = 0"
    by (rule gate_full)
  from st have fresh: "lookup g t = None" by (simp split: option.splits)
  have "g' = add_task t c Queued (g\<lparr>inference_semaphore := Some (s\<lparr>sem_waiters := sem_waiters s @ [t]\<rparr>)\<rparr>)"
    using st fresh chat s by (simp add: enter_guard_def get_semaphore_def locked_def)
  then show ?thesis using fresh
    by (simp add: lookup_add_task in_flight_def count_add_task calling_def)
qed

lemma lookup_leave_guard:
  "lookup (leave_guard u g) v = lookup g v
   \<or> lookup (leave_guard u g) v = map_option (\<lambda>k. (fst k, Admitted)) (lookup g v)"
  by (auto simp: leave_guard_def lookup_set_status split: option.splits prod.splits)

lemma lookup_exit_guard_self:
  "lookup g u = Some (c, s) \<Longrightarrow> lookup (exit_guard u out g) u = Some (c, Finished out)"
  using lookup_leave_guard [of u g u] by (auto simp: exit_guard_def lookup_set_status)

lemma lookup_exit_guard_other:
  "v \<noteq> u \<Longrightarrow> lookup g v = Some (c, s) \<Longrightarrow>
     lookup (exit_guard u out g) v = Some (c, s) \<or> lookup (exit_guard u out g) v = Some (c, Admitted)"
  using lookup_leave_guard [of u g v] by (auto simp: exit_guard_def lookup_set_status)

lemma lookup_enter_guard:
  "lookup g t = None \<Longrightarrow> v \<noteq> t \<Longrightarrow> lookup (enter_guard cfg t c g) v = lookup g v"
  by (auto simp: enter_guard_def get_semaphore_def and_then_def lookup_add_task
      split: sum.splits option.splits prod.splits)

lemma lookup_abandon [simp]: "lookup (abandon t g) = lookup g"
  by (simp add: abandon_def split: option.splits)

text \<open>A queued call changes state only when it is cancelled, or when a call holding a
  permit is over.\<close>

lemma queued_until_release:
  assumes t: "lookup g t = Some (c, Queued)" and st: "step cfg e g = Some g'"
    and e: "e \<noteq> Cancel t"
  shows "lookup g' t = Some (c, Queued)
    \<or> (\<exists>u cu su out. lookup g u = Some (cu, su) \<and> holds_permit (cu, su)
          \<and> lookup g' u = Some (cu, Finished out))"
proof (cases e)
  case (Arrive u cu)
  with st have fresh: "lookup g u = None" by (simp split: option.splits)
  with t have "t \<noteq> u" by auto
  with st Arrive fresh t show ?thesis
    by (auto simp: lookup_enter_guard lookup_add_task split: if_splits)
next
  case (Resume u)
  with st obtain cu where u: "lookup g u = Some (cu, Admitted)"
    and g': "g' = emit [BackendCall u (backend_request cfg cu)] (set_status u InFlight g)"
    by (auto split: option.splits status.splits)
  from u t have "t \<noteq> u" by auto
  then show ?thesis using g' t by (simp add: lookup_set_status)
next
  case (Respond u rp)
  with st obtain cu where u: "lookup g u = Some (cu, InFlight)"
    by (auto split: option.splits status.splits call.splits)
  from u t have tu: "t \<noteq> u" by auto
  show ?thesis
  proof (cases cu)
    case (Unary b)
    with st Respond u have "g' = exit_guard u (outcome_of (proxy_chat_completions cfg b rp)) g" by simp
    then have "lookup g' u = Some (cu, Finished (outcome_of (proxy_chat_completions cfg b rp)))"
      using u by (simp add: lookup_exit_guard_self)
    moreover have "holds_permit (cu, InFlight)" using Unary by (simp add: holds_permit_def)
    ultimately show ?thesis using u by blast
  next
    case (Stream b)
    show ?thesis
    proof (cases "open_stream cfg b rp")
      case (Inl x)
      with st Respond u Stream have "g' = exit_guard u (Raised x) g" by simp
      then have "lookup g' u = Some (cu, Finished (Raised x))"
        using u by (simp add: lookup_exit_guard_self)
      moreover have "holds_permit (cu, InFlight)" using Stream by (simp add: holds_permit_def)
      ultimately show ?thesis using u by blast
    next
      case (Inr x)
      with st Respond u Stream have "g' = set_status u Streaming g" by simp
      then show ?thesis using t tu by (simp add: lookup_set_status)
    qed
  next
    case (Fallback m p b)
    with st Respond u
    have "g' = set_status u (Finished (outcome_of (forward cfg (Fallback m p b) rp))) g" by simp
    then show ?thesis using t tu by (simp add: lookup_set_status)
  qed
next
  case (Chunk u raw x)
  with st have "g' = emit (relay u x) g"
    by (auto split: option.splits status.splits call.splits)
  then show ?thesis using t by simp
next
  case (EndOfStream u)
  with st obtain b where u: "lookup g u = Some (Stream b, Streaming)"
    and g': "g' = exit_guard u Exhausted g"
    by (auto split: option.splits status.splits call.splits)
  have "lookup g' u = Some (Stream b, Finished Exhausted)"
    using u g' by (simp add: lookup_exit_guard_self)
  moreover have "holds_permit (Stream b, Streaming)" by (simp add: holds_permit_def)
  ultimately show ?thesis using u by blast
next
  case (StreamError u m)
  with st obtain b where u: "lookup g u = Some (Stream b, Streaming)"
    and g': "g' = exit_guard u (Raised (RequestError m)) g"
    by (auto split: option.splits status.splits call.splits)
  have "lookup g' u = Some (Stream b, Finished (Raised (RequestError m)))"
    using u g' by (simp add: lookup_exit_guard_self)
  moreover have "holds_permit (Stream b, Streaming)" by (simp add: holds_permit_def)
  ultimately show ?thesis using u by blast
next
  case (Cancel u)
  with e have tu: "t \<noteq> u" by auto
  from st Cancel obtain cu su where u: "lookup g u = Some (cu, su)"
    by (auto split: option.splits)
  show ?thesis
  proof (cases "chat_call cu \<and> (su = Admitted \<or> su = InFlight \<or> su = Streaming)")
    case True
    with st Cancel u have "g' = exit_guard u (Raised CancelledError) g" by auto
    then have "lookup g' u = Some (cu, Finished (Raised CancelledError))"
      using u by (simp add: lookup_exit_guard_self)
    moreover have "holds_permit (cu, su)" using True by (simp add: holds_permit_def)
    ultimately show ?thesis using u by blast
  next
    case False
    with st Cancel u have "g' = set_status u (Finished (Raised CancelledError)) (abandon u g)
      \<or> g' = set_status u (Finished (Raised CancelledError)) g"
      by (cases su) (auto split: if_splits)
    then show ?thesis using t tu by (auto simp: lookup_set_status)
  qed
qed

text \<open>
  C1. With a positive capacity \<open>N\<close>, in every state the gateway reaches after start-up at
  most \<open>N\<close> chat completions (unary and streaming together) have their backend call in
  flight. When \<open>N\<close> are in flight, a further chat call that arrives is queued and the number
  in flight stays the same; and a queued call stays queued through every event other than
  its own cancellation, unless that event ends one of the calls in flight.
\<close>

theorem gate_bound_and_queue:
  assumes pos: "0 < max_concurrent_requests cfg"
    and start: "lifespan_startup cfg = Inr g0"
    and run: "run cfg es g0 = Some g"
  shows "int (in_flight g) \<le> max_concurrent_requests cfg
    \<and> (int (in_flight g) = max_concurrent_requests cfg \<longrightarrow>
         (\<forall>t c g'. chat_call c \<and> step cfg (Arrive t c) g = Some g' \<longrightarrow>
            lookup g' t = Some (c, Queued) \<and> in_flight g' = in_flight g)
       \<and> (\<forall>t c e g'. lookup g t = Some (c, Queued) \<and> step cfg e g = Some g' \<and> e \<noteq> Cancel t \<longrightarrow>
            lookup g' t = Some (c, Queued)
            \<or> (\<exists>u k out. lookup g u = Some k \<and> calling k
                  \<and> lookup g' u = Some (fst k, Finished out))))"
proof -
  from pos have "0 \<le> max_concurrent_requests cfg" by simp
  then have "gate_ok cfg g0" using start by (rule gate_ok_startup)
  then have ok: "gate_ok cfg g" using run by (rule gate_ok_run)
  have bound: "int (in_flight g) \<le> max_concurrent_requests cfg" using ok by (rule gate_bound)
  have queue: "lookup g' t = Some (c, Queued)
            \<or> (\<exists>u k out. lookup g u = Some k \<and> calling k \<and> lookup g' u = Some (fst k, Finished out))"
    if full: "int (in_flight g) = max_concurrent_requests cfg"
      and t: "lookup g t = Some (c, Queued)" and st: "step cfg e g = Some g'" and e: "e \<noteq> Cancel t"
    for t c e g'
  proof -
    from ok full obtain s where eq: "in_flight g = permits_held g" by (rule gate_full)
    from queued_until_release [OF t st e] show ?thesis
    proof
      assume "lookup g' t = Some (c, Queued)"
      then show ?thesis by simp
    next
      assume "\<exists>u cu su out. lookup g u = Some (cu, su) \<and> holds_permit (cu, su)
          \<and> lookup g' u = Some (cu, Finished out)"
      then obtain u cu su out where u: "lookup g u = Some (cu, su)" "holds_permit (cu, su)"
        "lookup g' u = Some (cu, Finished out)" by blast
      from holder_is_calling [OF eq u(1) u(2)] have "calling (cu, su)" .
      with u show ?thesis by fastforce
    qed
  qed
  show ?thesis using bound arrival_queued_when_full [OF ok] queue by blast
qed

lemmas gate_defs =
  lookup_def enter_guard_def get_semaphore_def locked_def add_task_def emit_def set_status_def
  exit_guard_def leave_guard_def release_def wake_up_next_def abandon_def and_then_def

lemma started_demo: "lifespan_startup demo_settings = Inr started"
  by (simp add: lifespan_startup_ok demo_settings_def started_def)

lemma run_three_calls: "run demo_settings three_calls started = Some busy"
  by (simp add: three_calls_def started_def busy_def gate_defs)

lemma in_flight_busy: "in_flight busy = 2"
  by (simp add: in_flight_def count_tasks_def busy_def calling_def)


theorem gate_bound_and_queue_witness:
  "0 < max_concurrent_requests demo_settings
   \<and> lifespan_startup demo_settings = Inr started
   \<and> run demo_settings three_calls started = Some busy
   \<and> int (in_flight busy) \<le> max_concurrent_requests demo_settings
   \<and> int (in_flight busy) = max_concurrent_requests demo_settings
   \<and> lookup (enter_guard demo_settings 3 (Stream hello_body) busy) 3
        = Some (Stream hello_body, Queued)
   \<and> in_flight (enter_guard demo_settings 3 (Stream hello_body) busy) = in_flight busy"
proof -
  have pos: "0 < max_concurrent_requests demo_settings" by (simp add: demo_settings_def)
  have full: "int (in_flight busy) = max_concurrent_requests demo_settings"
    by (simp add: in_flight_busy demo_settings_def)
  have enabled: "step demo_settings (Arrive 3 (Stream hello_body)) busy
      = Some (enter_guard demo_settings 3 (Stream hello_body) busy)"
    by (simp add: lookup_def busy_def)
  note inst = gate_bound_and_queue [OF pos started_demo run_three_calls]
  from inst have bound: "int (in_flight busy) \<le> max_concurrent_requests demo_settings"
    by (rule conjunct1)
  from inst full have "\<forall>t c g'. chat_call c \<and> step demo_settings (Arrive t c) busy = Some g' \<longrightarrow>
            lookup g' t = Some (c, Queued) \<and> in_flight g' = in_flight busy"
    by blast
  then have "chat_call (Stream hello_body)
      \<and> step demo_settings (Arrive 3 (Stream hello_body)) busy
          = Some (enter_guard demo_settings 3 (Stream hello_body) busy) \<longrightarrow>
      lookup (enter_guard demo_settings 3 (Stream hello_body) busy) 3 = Some (Stream hello_body, Queued)
      \<and> in_flight (enter_guard demo_settings 3 (Stream hello_body) busy) = in_flight busy"
    by blast
  with enabled have queued: "lookup (enter_guard demo_settings 3 (Stream hello_body) busy) 3
        = Some (Stream hello_body, Queued)
      \<and> in_flight (enter_guard demo_settings 3 (Stream hello_body) busy) = in_flight busy"
    by simp
  show ?thesis using pos started_demo run_three_calls bound full queued by simp
qed

section \<open>Every call's actions fit its state\<close>

lemma actions_of_simps [simp]:
  "actions_of t [] = []"
  "actions_of t (a # as) = (if actor a = t then a # actions_of t as else actions_of t as)"
  "actions_of t (p @ q) = actions_of t p @ actions_of t q"
  by (simp_all add: actions_of_def)

lemma yielded_append [simp]: "yielded (p @ q) = yielded p @ yielded q"
  by (induction p rule: yielded.induct) simp_all

lemma yielded_map_Yield [simp]: "yielded (map (Yield t) xs) = xs"
  by (induction xs) simp_all

lemma permit_trace_resume:
  "permit_trace rq t Admitted p \<Longrightarrow> permit_trace rq t InFlight (p @ [BackendCall t rq])"
  by simp

lemma permit_trace_open: "permit_trace rq t InFlight p \<Longrightarrow> permit_trace rq t Streaming p"
  by simp

lemma permit_trace_chunk:
  "permit_trace rq t Streaming p \<Longrightarrow> permit_trace rq t Streaming (p @ [Yield t x])"
proof -
  assume "permit_trace rq t Streaming p"
  then have p: "p = [Acquire t, BackendCall t rq] @ map (Yield t) (yielded p)" by simp
  have "p @ [Yield t x] = [Acquire t, BackendCall t rq] @ map (Yield t) (yielded p @ [x])"
    by (subst p) simp
  then show ?thesis by simp
qed

lemma permit_trace_release:
  assumes "permit_trace rq t s p" and "s = Admitted \<or> s = InFlight \<or> s = Streaming"
  shows "permit_trace rq t (Finished out) (p @ [Release t])"
proof -
  from assms(2) consider "s = Admitted" | "s = InFlight" | "s = Streaming" by blast
  then show ?thesis
  proof cases
    case 1
    with assms(1) show ?thesis by simp
  next
    case 2
    with assms(1) show ?thesis by simp
  next
    case 3
    with assms(1) have p: "p = [Acquire t, BackendCall t rq] @ map (Yield t) (yielded p)" by simp
    have "p @ [Release t] = [Acquire t, BackendCall t rq] @ map (Yield t) (yielded p) @ [Release t]"
      by (subst p) simp
    then show ?thesis by simp
  qed
qed

lemma permit_trace_cancel_queued:
  "permit_trace rq t Queued p \<Longrightarrow> permit_trace rq t (Finished out) p"
  by simp

lemma permit_trace_wake:
  "permit_trace rq w Queued p \<Longrightarrow> permit_trace rq w Admitted (p @ [Acquire w])"
  by simp

lemma task_ok_frame:
  "lookup g' t = lookup g t \<Longrightarrow> actions_of t (trace g') = actions_of t (trace g) \<Longrightarrow>
     task_ok cfg g' t = task_ok cfg g t"
  by (simp add: task_ok_def split: option.splits prod.splits)

lemma task_okD_chat:
  "task_ok cfg g t \<Longrightarrow> lookup g t = Some (c, s) \<Longrightarrow> chat_call c \<Longrightarrow>
     permit_trace (backend_request cfg c) t s (actions_of t (trace g))"
  by (simp add: task_ok_def)

lemma task_okD_other:
  "task_ok cfg g t \<Longrightarrow> lookup g t = Some (c, s) \<Longrightarrow> \<not> chat_call c \<Longrightarrow>
     (s = InFlight \<or> finished s) \<and> actions_of t (trace g) = [BackendCall t (backend_request cfg c)]"
  by (simp add: task_ok_def)

lemma task_okD_none: "task_ok cfg g t \<Longrightarrow> lookup g t = None \<Longrightarrow> actions_of t (trace g) = []"
  by (simp add: task_ok_def)

lemma task_okI_chat:
  "lookup g t = Some (c, s) \<Longrightarrow> chat_call c \<Longrightarrow>
     permit_trace (backend_request cfg c) t s (actions_of t (trace g)) \<Longrightarrow> task_ok cfg g t"
  by (simp add: task_ok_def)

lemma task_okI_other:
  "lookup g t = Some (c, s) \<Longrightarrow> \<not> chat_call c \<Longrightarrow> s = InFlight \<or> finished s \<Longrightarrow>
     actions_of t (trace g) = [BackendCall t (backend_request cfg c)] \<Longrightarrow> task_ok cfg g t"
  by (simp add: task_ok_def)

text \<open>What leaving the guarded section does to the calls and to the trace.\<close>

lemma exit_guard_effect:
  assumes ok: "gate_ok cfg g" and t: "lookup g t = Some (c, s0)" and nq: "s0 \<noteq> Queued"
  obtains (alone)
      "trace (exit_guard t out g) = trace g @ [Release t]"
      "\<And>v. lookup (exit_guard t out g) v = (if v = t then Some (c, Finished out) else lookup g v)"
    | (wake) w cw where "w \<noteq> t" "lookup g w = Some (cw, Queued)" "chat_call cw"
      "trace (exit_guard t out g) = trace g @ [Release t, Acquire w]"
      "\<And>v. lookup (exit_guard t out g) v =
          (if v = t then Some (c, Finished out)
           else if v = w then Some (cw, Admitted) else lookup g v)"
proof -
  from ok obtain s where s: "inference_semaphore g = Some s"
    "list_all (waiting g) (sem_waiters s)" by (rule gate_okD)
  show ?thesis
  proof (cases "sem_waiters s")
    case Nil
    have eq: "exit_guard t out g =
        set_status t (Finished out) (emit [Release t] (g\<lparr>inference_semaphore := Some (s\<lparr>sem_value := sem_value s + 1\<rparr>)\<rparr>))"
      using s(1) Nil by (simp add: exit_guard_def leave_guard_def release_def wake_up_next_def)
    show ?thesis
    proof (rule alone)
      show "trace (exit_guard t out g) = trace g @ [Release t]"
        unfolding eq by (simp add: emit_def)
      show "lookup (exit_guard t out g) v = (if v = t then Some (c, Finished out) else lookup g v)" for v
        unfolding eq using t by (simp add: lookup_set_status)
    qed
  next
    case (Cons w ws)
    have eq: "exit_guard t out g = set_status t (Finished out) (emit [Release t, Acquire w]
        (set_status w Admitted (g\<lparr>inference_semaphore := Some (s\<lparr>sem_value := sem_value s, sem_waiters := ws\<rparr>)\<rparr>)))"
      using s(1) Cons by (simp add: exit_guard_def leave_guard_def release_def wake_up_next_def)
    from s(2) Cons have "waiting g w" by simp
    then obtain cw where w: "lookup g w = Some (cw, Queued)" "chat_call cw"
      by (auto simp: waiting_iff)
    with t nq have wt: "w \<noteq> t" by auto
    show ?thesis
    proof (rule wake [OF wt w])
      show "trace (exit_guard t out g) = trace g @ [Release t, Acquire w]"
        unfolding eq by (simp add: emit_def)
      show "lookup (exit_guard t out g) v =
          (if v = t then Some (c, Finished out)
           else if v = w then Some (cw, Admitted) else lookup g v)" for v
        unfolding eq using t w wt by (simp add: lookup_set_status)
    qed
  qed
qed

lemma trace_ok_exit_guard:
  assumes ok: "gate_ok cfg g" and tr: "trace_ok cfg g"
    and t: "lookup g t = Some (c, s0)" and held: "holds_permit (c, s0)"
  shows "trace_ok cfg (exit_guard t out g)"
proof -
  from held have chat: "chat_call c" and s0: "s0 = Admitted \<or> s0 = InFlight \<or> s0 = Streaming"
    by (auto simp: holds_permit_def)
  from s0 have nq: "s0 \<noteq> Queued" by auto
  from tr have all: "task_ok cfg g v" for v by (simp add: trace_ok_def)
  have pt: "permit_trace (backend_request cfg c) t s0 (actions_of t (trace g))"
    using all t chat by (rule task_okD_chat)
  let ?g' = "exit_guard t out g"
  have "task_ok cfg ?g' v" for v
  using ok t nq
  proof (cases rule: exit_guard_effect [where out = out])
    case alone
    show ?thesis
    proof (cases "v = t")
      case True
      have "permit_trace (backend_request cfg c) t (Finished out) (actions_of t (trace g) @ [Release t])"
        using pt s0 by (rule permit_trace_release)
      then show ?thesis using True alone chat by (simp add: task_ok_def)
    next
      case False
      then have "task_ok cfg ?g' v = task_ok cfg g v"
        using alone by (intro task_ok_frame) simp_all
      then show ?thesis using all by simp
    qed
  next
    case (wake w cw)
    show ?thesis
    proof (cases "v = t")
      case True
      have "permit_trace (backend_request cfg c) t (Finished out) (actions_of t (trace g) @ [Release t])"
        using pt s0 by (rule permit_trace_release)
      then show ?thesis using True wake chat by (simp add: task_ok_def)
    next
      case False
      show ?thesis
      proof (cases "v = w")
        case True
        have "permit_trace (backend_request cfg cw) w Queued (actions_of w (trace g))"
          using all wake(2,3) by (rule task_okD_chat)
        then have "permit_trace (backend_request cfg cw) w Admitted (actions_of w (trace g) @ [Acquire w])"
          by (rule permit_trace_wake)
        then show ?thesis using True wake by (simp add: task_ok_def)
      next
        case vw: False
        with False have "task_ok cfg ?g' v = task_ok cfg g v"
          using wake by (intro task_ok_frame) simp_all
        then show ?thesis using all by simp
      qed
    qed
  qed
  then show ?thesis by (simp add: trace_ok_def)
qed


lemma enter_guard_effect:
  assumes fresh: "lookup g t = None"
  obtains st where "st = Queued \<or> (\<exists>e. st = Finished (Raised e))"
      "trace (enter_guard cfg t c g) = trace g"
      "\<And>v. lookup (enter_guard cfg t c g) v = (if v = t then Some (c, st) else lookup g v)"
    | "trace (enter_guard cfg t c g) = trace g @ [Acquire t, BackendCall t (backend_request cfg c)]"
      "\<And>v. lookup (enter_guard cfg t c g) v = (if v = t then Some (c, InFlight) else lookup g v)"
proof (cases "get_semaphore cfg g")
  case (Inl e)
  then have eq: "enter_guard cfg t c g = add_task t c (Finished (Raised e)) g"
    by (simp add: enter_guard_def)
  show ?thesis
  proof (rule that(1) [of "Finished (Raised e)"])
    show "Finished (Raised e) = Queued \<or> (\<exists>e'. Finished (Raised e) = Finished (Raised e'))" by simp
    show "trace (enter_guard cfg t c g) = trace g" unfolding eq by simp
    show "lookup (enter_guard cfg t c g) v = (if v = t then Some (c, Finished (Raised e)) else lookup g v)" for v
      unfolding eq using fresh by (simp add: lookup_add_task)
  qed
next
  case (Inr sg)
  obtain s g1 where sg: "sg = (s, g1)" by (cases sg)
  from Inr sg have g1: "lookup g1 = lookup g" "trace g1 = trace g"
    by (auto simp: get_semaphore_def and_then_def split: option.splits sum.splits)
  show ?thesis
  proof (cases "locked s")
    case True
    with Inr sg have eq: "enter_guard cfg t c g = add_task t c Queued
        (g1\<lparr>inference_semaphore := Some (s\<lparr>sem_waiters := sem_waiters s @ [t]\<rparr>)\<rparr>)"
      by (simp add: enter_guard_def)
    show ?thesis
    proof (rule that(1) [of Queued])
      show "Queued = Queued \<or> (\<exists>e. Queued = Finished (Raised e))" by simp
      show "trace (enter_guard cfg t c g) = trace g" unfolding eq using g1 by simp
      show "lookup (enter_guard cfg t c g) v = (if v = t then Some (c, Queued) else lookup g v)" for v
        unfolding eq using fresh g1 by (simp add: lookup_add_task)
    qed
  next
    case False
    with Inr sg have eq: "enter_guard cfg t c g =
        emit [Acquire t, BackendCall t (backend_request cfg c)]
          (add_task t c InFlight (g1\<lparr>inference_semaphore := Some (s\<lparr>sem_value := sem_value s - 1\<rparr>)\<rparr>))"
      by (simp add: enter_guard_def)
    show ?thesis
    proof (rule that(2))
      show "trace (enter_guard cfg t c g) = trace g @ [Acquire t, BackendCall t (backend_request cfg c)]"
        unfolding eq using g1 by simp
      show "lookup (enter_guard cfg t c g) v = (if v = t then Some (c, InFlight) else lookup g v)" for v
        unfolding eq using fresh g1 by (simp add: lookup_add_task)
    qed
  qed
qed

lemma trace_ok_enter_guard:
  assumes tr: "trace_ok cfg g" and fresh: "lookup g t = None" and chat: "chat_call c"
  shows "trace_ok cfg (enter_guard cfg t c g)"
proof -
  from tr have all: "task_ok cfg g v" for v by (simp add: trace_ok_def)
  have none: "actions_of t (trace g) = []" using all fresh by (rule task_okD_none)
  have "task_ok cfg (enter_guard cfg t c g) v" for v
  using fresh
  proof (cases rule: enter_guard_effect [where cfg = cfg and c = c])
    case (1 st)
    show ?thesis
    proof (cases "v = t")
      case True
      then show ?thesis using 1 none chat by (auto simp: task_ok_def)
    next
      case False
      then have "task_ok cfg (enter_guard cfg t c g) v = task_ok cfg g v"
        using 1 by (intro task_ok_frame) simp_all
      then show ?thesis using all by simp
    qed
  next
    case 2
    show ?thesis
    proof (cases "v = t")
      case True
      then show ?thesis using 2 none chat by (simp add: task_ok_def)
    next
      case False
      then have "task_ok cfg (enter_guard cfg t c g) v = task_ok cfg g v"
        using 2 by (intro task_ok_frame) simp_all
      then show ?thesis using all by simp
    qed
  qed
  then show ?thesis by (simp add: trace_ok_def)
qed

lemma trace_ok_update:
  assumes tr: "trace_ok cfg g"
    and look: "\<And>v. lookup g' v = (if v = t then Some (c, st) else lookup g v)"
    and trace: "trace g' = trace g @ as" and mine: "actions_of t as = as"
    and chat: "chat_call c \<Longrightarrow>
        permit_trace (backend_request cfg c) t st (actions_of t (trace g) @ as)"
    and other: "\<not> chat_call c \<Longrightarrow> (st = InFlight \<or> finished st)
        \<and> actions_of t (trace g) @ as = [BackendCall t (backend_request cfg c)]"
  shows "trace_ok cfg g'"
proof -
  from tr have all: "task_ok cfg g v" for v by (simp add: trace_ok_def)
  have "task_ok cfg g' v" for v
  proof (cases "v = t")
    case True
    then show ?thesis using look trace chat other mine by (simp add: task_ok_def)
  next
    case False
    have "actions_of v as = []"
    proof -
      have "actions_of v (actions_of t as) = []" using False
        by (simp add: actions_of_def filter_empty_conv)
      then show ?thesis using mine by simp
    qed
    with False have "task_ok cfg g' v = task_ok cfg g v"
      using look trace by (intro task_ok_frame) simp_all
    then show ?thesis using all by simp
  qed
  then show ?thesis by (simp add: trace_ok_def)
qed


lemma trace_abandon [simp]: "trace (abandon t g) = trace g"
  by (simp add: abandon_def split: option.splits)

lemma trace_ok_set_status:
  assumes tr: "trace_ok cfg g" and t: "lookup g t = Some (c, s0)"
    and chat: "chat_call c \<Longrightarrow> permit_trace (backend_request cfg c) t st (actions_of t (trace g) @ as)"
    and other: "\<not> chat_call c \<Longrightarrow> (st = InFlight \<or> finished st) \<and> as = []"
    and mine: "actions_of t as = as"
    and g': "lookup g' = lookup (set_status t st g)" "trace g' = trace g @ as"
  shows "trace_ok cfg g'"
proof (rule trace_ok_update [OF tr _ g'(2) mine chat])
  show "lookup g' v = (if v = t then Some (c, st) else lookup g v)" for v
    using t g'(1) by (simp add: lookup_set_status)
  show "(st = InFlight \<or> finished st)
      \<and> actions_of t (trace g) @ as = [BackendCall t (backend_request cfg c)]" if "\<not> chat_call c"
  proof -
    from tr have "task_ok cfg g t" by (simp add: trace_ok_def)
    from task_okD_other [OF this t that] other [OF that] show ?thesis by simp
  qed
qed

lemma trace_ok_step:
  assumes ok: "gate_ok cfg g" and tr: "trace_ok cfg g" and st: "step cfg e g = Some g'"
  shows "trace_ok cfg g'"
proof (cases e)
  case (Arrive t c)
  with st have fresh: "lookup g t = None" by (simp split: option.splits)
  show ?thesis
  proof (cases "chat_call c")
    case True
    with st Arrive fresh have "g' = enter_guard cfg t c g" by simp
    then show ?thesis using trace_ok_enter_guard [OF tr fresh True] by simp
  next
    case False
    with st Arrive fresh
    have g': "g' = emit [BackendCall t (backend_request cfg c)] (add_task t c InFlight g)" by simp
    from tr have "task_ok cfg g t" by (simp add: trace_ok_def)
    then have none: "actions_of t (trace g) = []" using fresh by (rule task_okD_none)
    show ?thesis
    proof (rule trace_ok_update [OF tr, where t = t and c = c and st = InFlight
          and as = "[BackendCall t (backend_request cfg c)]"])
      show "lookup g' v = (if v = t then Some (c, InFlight) else lookup g v)" for v
        unfolding g' using fresh by (simp add: lookup_add_task)
      show "trace g' = trace g @ [BackendCall t (backend_request cfg c)]" unfolding g' by simp
      show "actions_of t [BackendCall t (backend_request cfg c)] = [BackendCall t (backend_request cfg c)]"
        by simp
      show "permit_trace (backend_request cfg c) t InFlight
          (actions_of t (trace g) @ [BackendCall t (backend_request cfg c)])" if "chat_call c"
        using that False by simp
      show "(InFlight = InFlight \<or> finished InFlight)
          \<and> actions_of t (trace g) @ [BackendCall t (backend_request cfg c)]
              = [BackendCall t (backend_request cfg c)]"
        using none by simp
    qed
  qed
next
  case (Resume t)
  with st obtain c where t: "lookup g t = Some (c, Admitted)"
    and g': "g' = emit [BackendCall t (backend_request cfg c)] (set_status t InFlight g)"
    by (auto split: option.splits status.splits)
  from tr have tk: "task_ok cfg g t" by (simp add: trace_ok_def)
  have chat: "chat_call c" using task_okD_other [OF tk t] by auto
  show ?thesis
  proof (rule trace_ok_set_status [OF tr t, where st = InFlight
        and as = "[BackendCall t (backend_request cfg c)]"])
    show "permit_trace (backend_request cfg c) t InFlight
        (actions_of t (trace g) @ [BackendCall t (backend_request cfg c)])"
      using task_okD_chat [OF tk t chat] by simp
    show "(InFlight = InFlight \<or> finished InFlight) \<and> [BackendCall t (backend_request cfg c)] = []"
      if "\<not> chat_call c" using that chat by simp
    show "actions_of t [BackendCall t (backend_request cfg c)] = [BackendCall t (backend_request cfg c)]"
      by simp
    show "lookup g' = lookup (set_status t InFlight g)" unfolding g' by simp
    show "trace g' = trace g @ [BackendCall t (backend_request cfg c)]" unfolding g' by simp
  qed
next
  case (Respond t rp)
  with st obtain c where t: "lookup g t = Some (c, InFlight)"
    by (auto split: option.splits status.splits call.splits)
  from tr have tk: "task_ok cfg g t" by (simp add: trace_ok_def)
  show ?thesis
  proof (cases c)
    case (Unary b)
    with st Respond t
    have "g' = exit_guard t (outcome_of (proxy_chat_completions cfg b rp)) g" by simp
    then show ?thesis using trace_ok_exit_guard [OF ok tr t] Unary by (simp add: holds_permit_def)
  next
    case (Stream b)
    show ?thesis
    proof (cases "open_stream cfg b rp")
      case (Inl x)
      with st Respond t Stream have "g' = exit_guard t (Raised x) g" by simp
      then show ?thesis using trace_ok_exit_guard [OF ok tr t] Stream by (simp add: holds_permit_def)
    next
      case (Inr u)
      with st Respond t Stream have g': "g' = set_status t Streaming g" by simp
      show ?thesis
      proof (rule trace_ok_set_status [OF tr t, where st = Streaming and as = "[]"])
        show "permit_trace (backend_request cfg c) t Streaming (actions_of t (trace g) @ [])"
          using task_okD_chat [OF tk t] Stream by simp
        show "(Streaming = InFlight \<or> finished Streaming) \<and> [] = []" if "\<not> chat_call c"
          using that Stream by simp
        show "actions_of t [] = []" by simp
        show "lookup g' = lookup (set_status t Streaming g)" unfolding g' by simp
        show "trace g' = trace g @ []" unfolding g' by simp
      qed
    qed
  next
    case (Fallback m p b)
    with st Respond t
    have g': "g' = set_status t (Finished (outcome_of (forward cfg (Fallback m p b) rp))) g" by simp
    show ?thesis
    proof (rule trace_ok_set_status [OF tr t, where as = "[]"
          and st = "Finished (outcome_of (forward cfg (Fallback m p b) rp))"])
      show "permit_trace (backend_request cfg c) t
          (Finished (outcome_of (forward cfg (Fallback m p b) rp))) (actions_of t (trace g) @ [])"
        if "chat_call c" using that Fallback by simp
      show "(Finished (outcome_of (forward cfg (Fallback m p b) rp)) = InFlight
            \<or> finished (Finished (outcome_of (forward cfg (Fallback m p b) rp)))) \<and> [] = []"
        by simp
      show "actions_of t [] = []" by simp
      show "lookup g' = lookup (set_status t (Finished (outcome_of (forward cfg (Fallback m p b) rp))) g)"
        unfolding g' by simp
      show "trace g' = trace g @ []" unfolding g' by simp
    qed
  qed
next
  case (Chunk t raw x)
  with st obtain b where t: "lookup g t = Some (Stream b, Streaming)"
    and g': "g' = emit (relay t x) g"
    by (auto split: option.splits status.splits call.splits)
  from tr have tk: "task_ok cfg g t" by (simp add: trace_ok_def)
  show ?thesis
  proof (rule trace_ok_update [OF tr, where t = t and c = "Stream b" and st = Streaming
        and as = "relay t x"])
    show "lookup g' v = (if v = t then Some (Stream b, Streaming) else lookup g v)" for v
      unfolding g' using t by simp
    show "trace g' = trace g @ relay t x" unfolding g' by simp
    show "actions_of t (relay t x) = relay t x" by (simp add: relay_def)
    show "permit_trace (backend_request cfg (Stream b)) t Streaming (actions_of t (trace g) @ relay t x)"
    proof (cases "x = []")
      case True
      then show ?thesis using task_okD_chat [OF tk t] by (simp add: relay_def)
    next
      case False
      have "permit_trace (backend_request cfg (Stream b)) t Streaming (actions_of t (trace g) @ [Yield t x])"
        using task_okD_chat [OF tk t] by (intro permit_trace_chunk) simp
      then show ?thesis using False by (simp add: relay_def)
    qed
    show "(Streaming = InFlight \<or> finished Streaming)
        \<and> actions_of t (trace g) @ relay t x = [BackendCall t (backend_request cfg (Stream b))]"
      if "\<not> chat_call (Stream b)" using that by simp
  qed
next
  case (EndOfStream t)
  with st obtain b where t: "lookup g t = Some (Stream b, Streaming)"
    and g': "g' = exit_guard t Exhausted g"
    by (auto split: option.splits status.splits call.splits)
  show ?thesis unfolding g' by (rule trace_ok_exit_guard [OF ok tr t]) (simp add: holds_permit_def)
next
  case (StreamError t m)
  with st obtain b where t: "lookup g t = Some (Stream b, Streaming)"
    and g': "g' = exit_guard t (Raised (RequestError m)) g"
    by (auto split: option.splits status.splits call.splits)
  show ?thesis unfolding g' by (rule trace_ok_exit_guard [OF ok tr t]) (simp add: holds_permit_def)
next
  case (Cancel t)
  with st obtain c s0 where t: "lookup g t = Some (c, s0)"
    by (auto split: option.splits)
  from tr have tk: "task_ok cfg g t" by (simp add: trace_ok_def)
  let ?out = "Raised CancelledError"
  show ?thesis
  proof (cases "s0 = Queued")
    case True
    with st Cancel t have g': "g' = set_status t (Finished ?out) (abandon t g)" by simp
    have chat: "chat_call c" using task_okD_other [OF tk t] True by auto
    show ?thesis
    proof (rule trace_ok_set_status [OF tr t, where st = "Finished ?out" and as = "[]"])
      show "permit_trace (backend_request cfg c) t (Finished ?out) (actions_of t (trace g) @ [])"
        using task_okD_chat [OF tk t chat] True by simp
      show "(Finished ?out = InFlight \<or> finished (Finished ?out)) \<and> [] = []" by simp
      show "actions_of t [] = []" by simp
      show "lookup g' = lookup (set_status t (Finished ?out) g)"
        unfolding g' by (simp add: fun_eq_iff lookup_set_status)
      show "trace g' = trace g @ []" unfolding g' by simp
    qed
  next
    case False
    from st Cancel t have nf: "\<not> finished s0" by (cases s0) auto
    show ?thesis
    proof (cases "chat_call c")
      case True
      with st Cancel t False nf have "g' = exit_guard t ?out g" by (cases s0) auto
      moreover have "holds_permit (c, s0)" using True False nf by (cases s0) (auto simp: holds_permit_def)
      ultimately show ?thesis using trace_ok_exit_guard [OF ok tr t] by simp
    next
      case nc: False
      with st Cancel t False nf have g': "g' = set_status t (Finished ?out) g" by (cases s0) auto
      show ?thesis
      proof (rule trace_ok_set_status [OF tr t, where st = "Finished ?out" and as = "[]"])
        show "permit_trace (backend_request cfg c) t (Finished ?out) (actions_of t (trace g) @ [])"
          if "chat_call c" using that nc by simp
        show "(Finished ?out = InFlight \<or> finished (Finished ?out)) \<and> [] = []" by simp
        show "actions_of t [] = []" by simp
        show "lookup g' = lookup (set_status t (Finished ?out) g)" unfolding g' by simp
        show "trace g' = trace g @ []" unfolding g' by simp
      qed
    qed
  qed
qed

lemma invariants_run:
  "gate_ok cfg g \<Longrightarrow> trace_ok cfg g \<Longrightarrow> run cfg es g = Some g' \<Longrightarrow>
     gate_ok cfg g' \<and> trace_ok cfg g'"
proof (induction es arbitrary: g)
  case Nil
  then show ?case by simp
next
  case (Cons e es)
  from Cons.prems(3) obtain g1 where g1: "step cfg e g = Some g1" "run cfg es g1 = Some g'"
    by (auto split: option.splits)
  have "gate_ok cfg g1" using Cons.prems(1) g1(1) by (rule gate_ok_step)
  moreover have "trace_ok cfg g1" using Cons.prems(1,2) g1(1) by (rule trace_ok_step)
  ultimately show ?case using g1(2) by (rule Cons.IH)
qed

lemma trace_ok_startup:
  "0 \<le> max_concurrent_requests cfg \<Longrightarrow> lifespan_startup cfg = Inr g \<Longrightarrow> trace_ok cfg g"
  by (auto simp: lifespan_startup_ok trace_ok_def task_ok_def lookup_def)

lemma reachable_ok:
  assumes "0 \<le> max_concurrent_requests cfg" "lifespan_startup cfg = Inr g0" "run cfg es g0 = Some g"
  shows "gate_ok cfg g" "trace_ok cfg g"
  using invariants_run [OF gate_ok_startup [OF assms(1,2)] trace_ok_startup [OF assms(1,2)] assms(3)]
  by simp_all

section \<open>Permit accounting, the stream's permit and the relayed chunks\<close>

lemma count_list_actions_of:
  "count_list (actions_of t tr) a = (if actor a = t then count_list tr a else 0)"
  by (induction tr) auto

lemma count_list_yields [simp]:
  "count_list (map (Yield t) xs) (Release u) = 0"
  "count_list (map (Yield t) xs) (Acquire u) = 0"
  by (induction xs) auto

lemma permit_trace_counts:
  assumes "permit_trace rq t s p"
  shows "count_list p (Acquire t) \<le> 1"
    and "finished s \<Longrightarrow> count_list p (Release t) = count_list p (Acquire t)"
    and "\<not> finished s \<Longrightarrow> count_list p (Release t) = 0"
proof -
  have *: "count_list p (Acquire t) \<le> 1
      \<and> (finished s \<longrightarrow> count_list p (Release t) = count_list p (Acquire t))
      \<and> (\<not> finished s \<longrightarrow> count_list p (Release t) = 0)"
  proof (cases s)
    case Streaming
    with assms have "p = [Acquire t, BackendCall t rq] @ map (Yield t) (yielded p)" by simp
    then obtain ys where "p = [Acquire t, BackendCall t rq] @ map (Yield t) ys" ..
    then show ?thesis using Streaming by simp
  next
    case (Finished out)
    with assms consider "p = []" | "p = [Acquire t, Release t]"
      | "p = [Acquire t, BackendCall t rq] @ map (Yield t) (yielded p) @ [Release t]" by auto
    then show ?thesis
    proof cases
      case 3
      then obtain ys where "p = [Acquire t, BackendCall t rq] @ map (Yield t) ys @ [Release t]" ..
      then show ?thesis using Finished by simp
    qed (simp_all add: Finished)
  qed (use assms in simp_all)
  from * show "count_list p (Acquire t) \<le> 1"
    and "finished s \<Longrightarrow> count_list p (Release t) = count_list p (Acquire t)"
    and "\<not> finished s \<Longrightarrow> count_list p (Release t) = 0" by simp_all
qed

lemma count_filter_zero: "(\<And>x. x \<in> set xs \<Longrightarrow> \<not> P x) \<Longrightarrow> length (filter P xs) = 0"
  by (induction xs) auto

lemma all_finished_no_permits:
  assumes "\<And>t c s. lookup g t = Some (c, s) \<Longrightarrow> finished s" and d: "distinct (map fst (tasks g))"
  shows "permits_held g = 0"
  unfolding permits_held_def count_tasks_def
proof (rule count_filter_zero)
  fix x assume x: "x \<in> set (tasks g)"
  obtain t c s where [simp]: "x = (t, c, s)" by (cases x)
  from x d have "lookup g t = Some (c, s)" by (simp add: lookup_def)
  then have "finished s" by (rule assms(1))
  then show "\<not> holds_permit (snd x)" by (cases s) (auto simp: holds_permit_def)
qed

lemma permit_trace_holder:
  assumes "permit_trace rq t s p" and "s = Admitted \<or> s = InFlight \<or> s = Streaming"
  shows "count_list p (Acquire t) = 1" and "count_list p (Release t) = 0"
proof -
  from assms(2) consider "s = Admitted" | "s = InFlight" | "s = Streaming" by blast
  then have "count_list p (Acquire t) = 1 \<and> count_list p (Release t) = 0"
  proof cases
    case 3
    with assms(1) have "p = [Acquire t, BackendCall t rq] @ map (Yield t) (yielded p)" by simp
    then obtain ys where "p = [Acquire t, BackendCall t rq] @ map (Yield t) ys" ..
    then show ?thesis by simp
  qed (use assms(1) in simp_all)
  then show "count_list p (Acquire t) = 1" and "count_list p (Release t) = 0" by simp_all
qed

text \<open>Leaving the guarded section is one release in the task's name, its last action.\<close>

lemma exit_guard_closes:
  assumes ok: "gate_ok cfg g" and tr: "trace_ok cfg g"
    and t: "lookup g t = Some (c, s0)" and held: "holds_permit (c, s0)"
  shows "lookup (exit_guard t out g) t = Some (c, Finished out)"
    and "count_list (trace (exit_guard t out g)) (Acquire t) = 1"
    and "count_list (trace (exit_guard t out g)) (Release t) = 1"
    and "last (actions_of t (trace (exit_guard t out g))) = Release t"
proof -
  from held have chat: "chat_call c" and s0: "s0 = Admitted \<or> s0 = InFlight \<or> s0 = Streaming"
    by (auto simp: holds_permit_def)
  from s0 have nq: "s0 \<noteq> Queued" by auto
  from tr have "task_ok cfg g t" by (simp add: trace_ok_def)
  then have pt: "permit_trace (backend_request cfg c) t s0 (actions_of t (trace g))"
    using t chat by (rule task_okD_chat)
  from permit_trace_holder [OF pt s0]
  have before: "count_list (trace g) (Acquire t) = 1" "count_list (trace g) (Release t) = 0"
    by (simp_all add: count_list_actions_of)
  show "lookup (exit_guard t out g) t = Some (c, Finished out)"
    using t by (rule lookup_exit_guard_self)
  have "count_list (trace (exit_guard t out g)) (Acquire t) = 1
      \<and> count_list (trace (exit_guard t out g)) (Release t) = 1
      \<and> last (actions_of t (trace (exit_guard t out g))) = Release t"
  using ok t nq
  proof (cases rule: exit_guard_effect [where out = out])
    case alone
    then show ?thesis using before by simp
  next
    case (wake w cw)
    then show ?thesis using before by simp
  qed
  then show "count_list (trace (exit_guard t out g)) (Acquire t) = 1"
    and "count_list (trace (exit_guard t out g)) (Release t) = 1"
    and "last (actions_of t (trace (exit_guard t out g))) = Release t" by simp_all
qed

lemma closesI:
  assumes "gate_ok cfg g" "trace_ok cfg g" "lookup g t = Some (c, s0)" "holds_permit (c, s0)"
    and "step cfg e g = Some (exit_guard t out g)"
  shows "closes cfg g e t out"
  using exit_guard_closes [OF assms(1-4), of out] assms(5) by (simp add: closes_def)

text \<open>The events that end a call holding a permit, one lemma for each state of the call.\<close>

lemma unary_closes:
  assumes "gate_ok cfg g" "trace_ok cfg g" and t: "lookup g t = Some (Unary b, InFlight)"
  shows "closes cfg g (Respond t rp) t (outcome_of (proxy_chat_completions cfg b rp))"
    and "closes cfg g (Cancel t) t (Raised CancelledError)"
  by (rule closesI [OF assms]; simp add: t holds_permit_def)+

lemma opening_stream_closes:
  assumes "gate_ok cfg g" "trace_ok cfg g" and t: "lookup g t = Some (Stream b, InFlight)"
  shows "open_stream cfg b rp = Inl e \<Longrightarrow> closes cfg g (Respond t rp) t (Raised e)"
    and "closes cfg g (Cancel t) t (Raised CancelledError)"
  by (rule closesI [OF assms]; simp add: t holds_permit_def)+

lemma streaming_closes:
  assumes "gate_ok cfg g" "trace_ok cfg g" and t: "lookup g t = Some (Stream b, Streaming)"
  shows "closes cfg g (EndOfStream t) t Exhausted"
    and "closes cfg g (StreamError t m) t (Raised (RequestError m))"
    and "closes cfg g (Cancel t) t (Raised CancelledError)"
  by (rule closesI [OF assms]; simp add: t holds_permit_def)+

lemma admitted_closes:
  assumes "gate_ok cfg g" "trace_ok cfg g" and t: "lookup g t = Some (c, Admitted)"
    and chat: "chat_call c"
  shows "closes cfg g (Cancel t) t (Raised CancelledError)"
  by (rule closesI [OF assms(1-3)]; simp add: t chat holds_permit_def)

lemma queued_abandons:
  assumes tr: "trace_ok cfg g" and t: "lookup g t = Some (c, Queued)"
  shows "abandons cfg g t"
proof -
  from tr have tk: "task_ok cfg g t" by (simp add: trace_ok_def)
  have chat: "chat_call c" using task_okD_other [OF tk t] by auto
  from task_okD_chat [OF tk t chat] have "actions_of t (trace g) = []" by simp
  then show ?thesis using t
    by (simp add: abandons_def lookup_set_status available_slots_def abandon_def
        split: option.splits)
qed

lemma slots_available:
  assumes "gate_ok cfg g"
  shows "available_slots g = Some (max_concurrent_requests cfg - int (permits_held g))"
  using assms by (auto simp: gate_ok_def available_slots_def split: option.splits)

text \<open>
  C2. In every state reached after start-up, a chat call has had a slot taken for it at most
  once; once it is over, however it ended, the releases in its name equal the acquires; while
  it is not over nothing has been released in its name. The available slots are the capacity
  less the calls that hold a permit, so they equal the capacity when every call is over.
  And every way out of the guarded section is open and gives the permit back exactly once:
  the backend's answer to a unary call (a completion, an HTTP error status, a body that does
  not decode) or the failure of the network; the failure to open a stream; the end of a
  stream's body or a failure of its connection; and the cancellation of a call that holds a
  permit, whatever it is doing. A call cancelled while it waits takes and returns nothing.
\<close>

theorem permit_accounting:
  assumes pos: "0 < max_concurrent_requests cfg"
    and start: "lifespan_startup cfg = Inr g0"
    and run: "run cfg es g0 = Some g"
  shows "(\<forall>t c s. lookup g t = Some (c, s) \<and> chat_call c \<longrightarrow>
            count_list (trace g) (Acquire t) \<le> 1
            \<and> (finished s \<longrightarrow> count_list (trace g) (Release t) = count_list (trace g) (Acquire t))
            \<and> (\<not> finished s \<longrightarrow> count_list (trace g) (Release t) = 0))
       \<and> ((\<forall>t c s. lookup g t = Some (c, s) \<longrightarrow> finished s) \<longrightarrow>
            available_slots g = Some (max_concurrent_requests cfg))
       \<and> available_slots g = Some (max_concurrent_requests cfg - int (permits_held g))
       \<and> (\<forall>t b. lookup g t = Some (Unary b, InFlight) \<longrightarrow>
            (\<forall>rp. closes cfg g (Respond t rp) t (outcome_of (proxy_chat_completions cfg b rp)))
            \<and> closes cfg g (Cancel t) t (Raised CancelledError))
       \<and> (\<forall>t b. lookup g t = Some (Stream b, InFlight) \<longrightarrow>
            (\<forall>rp e. open_stream cfg b rp = Inl e \<longrightarrow> closes cfg g (Respond t rp) t (Raised e))
            \<and> closes cfg g (Cancel t) t (Raised CancelledError))
       \<and> (\<forall>t b. lookup g t = Some (Stream b, Streaming) \<longrightarrow>
            closes cfg g (EndOfStream t) t Exhausted
            \<and> (\<forall>m. closes cfg g (StreamError t m) t (Raised (RequestError m)))
            \<and> closes cfg g (Cancel t) t (Raised CancelledError))
       \<and> (\<forall>t c. lookup g t = Some (c, Admitted) \<longrightarrow>
            closes cfg g (Cancel t) t (Raised CancelledError))
       \<and> (\<forall>t c. lookup g t = Some (c, Queued) \<longrightarrow> abandons cfg g t)"
proof -
  from pos have nn: "0 \<le> max_concurrent_requests cfg" by simp
  have ok: "gate_ok cfg g" and tr: "trace_ok cfg g"
    using reachable_ok [OF nn start run] by simp_all
  have per_task: "count_list (trace g) (Acquire t) \<le> 1
      \<and> (finished s \<longrightarrow> count_list (trace g) (Release t) = count_list (trace g) (Acquire t))
      \<and> (\<not> finished s \<longrightarrow> count_list (trace g) (Release t) = 0)"
    if t: "lookup g t = Some (c, s)" and chat: "chat_call c" for t c s
  proof -
    from tr have "task_ok cfg g t" by (simp add: trace_ok_def)
    then have pt: "permit_trace (backend_request cfg c) t s (actions_of t (trace g))"
      using t chat by (rule task_okD_chat)
    from permit_trace_counts [OF pt] show ?thesis by (simp add: count_list_actions_of)
  qed
  have now: "available_slots g = Some (max_concurrent_requests cfg - int (permits_held g))"
    using ok by (rule slots_available)
  have slots: "available_slots g = Some (max_concurrent_requests cfg)"
    if fin: "\<forall>t c s. lookup g t = Some (c, s) \<longrightarrow> finished s"
  proof -
    from ok have "distinct (map fst (tasks g))" by (rule gate_okD)
    then have "permits_held g = 0" using fin by (intro all_finished_no_permits) blast+
    with now show ?thesis by simp
  qed
  have admitted: "closes cfg g (Cancel t) t (Raised CancelledError)"
    if t: "lookup g t = Some (c, Admitted)" for t c
  proof -
    from tr have tk: "task_ok cfg g t" by (simp add: trace_ok_def)
    have "chat_call c" using task_okD_other [OF tk t] by auto
    with ok tr t show ?thesis by (rule admitted_closes)
  qed
  have c1: "\<forall>t c s. lookup g t = Some (c, s) \<and> chat_call c \<longrightarrow>
            count_list (trace g) (Acquire t) \<le> 1
            \<and> (finished s \<longrightarrow> count_list (trace g) (Release t) = count_list (trace g) (Acquire t))
            \<and> (\<not> finished s \<longrightarrow> count_list (trace g) (Release t) = 0)"
    using per_task by blast
  have c2: "(\<forall>t c s. lookup g t = Some (c, s) \<longrightarrow> finished s) \<longrightarrow>
            available_slots g = Some (max_concurrent_requests cfg)"
    using slots by blast
  have c4: "\<forall>t b. lookup g t = Some (Unary b, InFlight) \<longrightarrow>
            (\<forall>rp. closes cfg g (Respond t rp) t (outcome_of (proxy_chat_completions cfg b rp)))
            \<and> closes cfg g (Cancel t) t (Raised CancelledError)"
    using unary_closes [OF ok tr] by blast
  have c5: "\<forall>t b. lookup g t = Some (Stream b, InFlight) \<longrightarrow>
            (\<forall>rp e. open_stream cfg b rp = Inl e \<longrightarrow> closes cfg g (Respond t rp) t (Raised e))
            \<and> closes cfg g (Cancel t) t (Raised CancelledError)"
    using opening_stream_closes [OF ok tr] by blast
  have c6: "\<forall>t b. lookup g t = Some (Stream b, Streaming) \<longrightarrow>
            closes cfg g (EndOfStream t) t Exhausted
            \<and> (\<forall>m. closes cfg g (StreamError t m) t (Raised (RequestError m)))
            \<and> closes cfg g (Cancel t) t (Raised CancelledError)"
    using streaming_closes [OF ok tr] by blast
  have c7: "\<forall>t c. lookup g t = Some (c, Admitted) \<longrightarrow>
            closes cfg g (Cancel t) t (Raised CancelledError)"
    using admitted by blast
  have c8: "\<forall>t c. lookup g t = Some (c, Queued) \<longrightarrow> abandons cfg g t"
    using queued_abandons [OF tr] by blast
  show ?thesis by (intro conjI c1 c2 now c4 c5 c6 c7 c8)
qed

lemma yielded_leave_guard:
  "yielded (actions_of v (trace (leave_guard t g))) = yielded (actions_of v (trace g))"
  by (simp add: leave_guard_def split: option.splits prod.splits)

lemma yielded_exit_guard:
  "yielded (actions_of v (trace (exit_guard t out g))) = yielded (actions_of v (trace g))"
  by (simp add: exit_guard_def yielded_leave_guard)

lemma yielded_enter_guard:
  "yielded (actions_of v (trace (enter_guard cfg t c g))) = yielded (actions_of v (trace g))"
  by (simp add: enter_guard_def get_semaphore_def and_then_def
      split: sum.splits option.splits prod.splits)

lemma yielded_relay:
  "yielded (actions_of t (relay u x)) = (if u = t \<and> x \<noteq> [] then [x] else [])"
  by (simp add: relay_def)

lemma yielded_step:
  assumes "step cfg e g = Some g'"
  shows "yielded (actions_of t (trace g')) = yielded (actions_of t (trace g)) @ decoded t [e]"
proof (cases e)
  case (Arrive u c)
  with assms show ?thesis
    by (auto simp: yielded_enter_guard split: option.splits if_splits)
next
  case (Resume u)
  with assms show ?thesis by (auto split: option.splits status.splits)
next
  case (Respond u rp)
  with assms show ?thesis
    by (auto simp: yielded_exit_guard split: option.splits status.splits call.splits sum.splits)
next
  case (Chunk u raw x)
  with assms show ?thesis
    by (auto simp: yielded_relay split: option.splits status.splits call.splits)
next
  case (EndOfStream u)
  with assms show ?thesis
    by (auto simp: yielded_exit_guard split: option.splits status.splits call.splits)
next
  case (StreamError u m)
  with assms show ?thesis
    by (auto simp: yielded_exit_guard split: option.splits status.splits call.splits)
next
  case (Cancel u)
  with assms show ?thesis
    by (auto simp: yielded_exit_guard split: option.splits status.splits if_splits)
qed

lemma decoded_append: "decoded t (es @ fs) = decoded t es @ decoded t fs"
  by (induction t es rule: decoded.induct) simp_all

lemma yielded_run:
  "run cfg es g = Some g' \<Longrightarrow>
     yielded (actions_of t (trace g')) = yielded (actions_of t (trace g)) @ decoded t es"
proof (induction es arbitrary: g)
  case Nil
  then show ?case by simp
next
  case (Cons e es)
  from Cons.prems obtain g1 where g1: "step cfg e g = Some g1" "run cfg es g1 = Some g'"
    by (auto split: option.splits)
  have "decoded t (e # es) = decoded t [e] @ decoded t es"
    using decoded_append [of t "[e]" es] by simp
  then show ?case using Cons.IH [OF g1(2)] yielded_step [OF g1(1), of t] by simp
qed

lemma unencoded_decoded:
  "unencoded t es \<Longrightarrow> decoded t es = filter (\<lambda>x. x \<noteq> []) (received t es)"
  by (induction t es rule: decoded.induct) auto

lemma concat_nonempty: "concat (filter (\<lambda>x. x \<noteq> []) xs) = concat xs"
  by (induction xs) auto

lemma startup_trace: "lifespan_startup cfg = Inr g0 \<Longrightarrow> trace g0 = []"
  by (auto simp: lifespan_startup_def get_semaphore_def boot_def and_then_def Semaphore_def
      split: if_splits)

text \<open>
  C9, as the code has it. In every state reached after start-up, the chunks yielded for a task
  are the chunks of \<^verbatim>\<open>response.aiter_bytes()\<close>: what the content decoder made of the
  backend's chunks, in order, the empty ones left out. When the body has no content encoding
  they are the chunks received themselves, and the bytes concatenate to the same. A stream
  that is open takes every chunk, and yields it in the very step in which it arrives, changing
  nothing else.
\<close>

theorem stream_relay:
  assumes start: "lifespan_startup cfg = Inr g0" and run: "run cfg es g0 = Some g"
  shows "yielded (actions_of t (trace g)) = decoded t es
    \<and> (unencoded t es \<longrightarrow>
         yielded (actions_of t (trace g)) = filter (\<lambda>x. x \<noteq> []) (received t es)
         \<and> concat (yielded (actions_of t (trace g))) = concat (received t es))
    \<and> (\<forall>b raw x. lookup g t = Some (Stream b, Streaming) \<longrightarrow>
         step cfg (Chunk t raw x) g = Some (g\<lparr>trace := trace g @ relay t x\<rparr>))"
proof -
  have y: "yielded (actions_of t (trace g)) = decoded t es"
    using yielded_run [OF run, of t] startup_trace [OF start] by simp
  have "yielded (actions_of t (trace g)) = filter (\<lambda>x. x \<noteq> []) (received t es)
      \<and> concat (yielded (actions_of t (trace g))) = concat (received t es)"
    if "unencoded t es"
    using y unencoded_decoded [OF that] by (simp add: concat_nonempty)
  moreover have "step cfg (Chunk t raw x) g = Some (g\<lparr>trace := trace g @ relay t x\<rparr>)"
    if "lookup g t = Some (Stream b, Streaming)" for b raw x
    using that by (simp add: emit_def)
  ultimately show ?thesis using y by blast
qed

lemma gated_yields: "t \<in> set hs \<Longrightarrow> gated hs (map (Yield t) ys @ rest) = gated hs rest"
  by (induction ys) simp_all

lemma permit_trace_gated:
  assumes "permit_trace rq t s p"
  shows "gated [] p"
proof (cases s)
  case Streaming
  with assms have "p = [Acquire t, BackendCall t rq] @ map (Yield t) (yielded p)" by simp
  then obtain ys where "p = [Acquire t, BackendCall t rq] @ map (Yield t) ys @ []" by simp
  then show ?thesis by (simp add: gated_yields del: append_Nil2)
next
  case (Finished out)
  with assms consider "p = []" | "p = [Acquire t, Release t]"
    | "p = [Acquire t, BackendCall t rq] @ map (Yield t) (yielded p) @ [Release t]" by auto
  then show ?thesis
  proof cases
    case 3
    then obtain ys where "p = [Acquire t, BackendCall t rq] @ map (Yield t) ys @ [Release t]" ..
    then show ?thesis by (simp add: gated_yields)
  qed simp_all
qed (use assms in simp_all)

lemma permit_trace_released:
  assumes "permit_trace rq t (Finished out) p" and "p \<noteq> []"
  shows "last p = Release t"
proof -
  from assms consider "p = [Acquire t, Release t]"
    | "p = [Acquire t, BackendCall t rq] @ map (Yield t) (yielded p) @ [Release t]" by auto
  then show ?thesis
  proof cases
    case 2
    then obtain ys where "p = ([Acquire t, BackendCall t rq] @ map (Yield t) ys) @ [Release t]"
      by simp
    then show ?thesis by (simp only: last_snoc)
  qed simp
qed

text \<open>
  C4, as the code has it. Every chat completion (unary or streamed) makes its backend call and
  relays its chunks while holding a permit, and once it is over its last action is the release.
  Whatever ends such a call is open and gives the permit back exactly once, as the call's
  last action: the backend's answer or the failure of the network, the failure to open a
  stream, the end or the failure of a stream, the cancellation. A call through the fallback
  route has one action, its backend call: it never takes a permit.
\<close>

theorem chat_calls_gated:
  assumes pos: "0 < max_concurrent_requests cfg"
    and start: "lifespan_startup cfg = Inr g0"
    and run: "run cfg es g0 = Some g"
  shows "(\<forall>t c s. lookup g t = Some (c, s) \<and> chat_call c \<longrightarrow>
            gated [] (actions_of t (trace g))
            \<and> (finished s \<and> actions_of t (trace g) \<noteq> [] \<longrightarrow>
                 last (actions_of t (trace g)) = Release t))
       \<and> (\<forall>t c s. lookup g t = Some (c, s) \<and> \<not> chat_call c \<longrightarrow>
            actions_of t (trace g) = [BackendCall t (backend_request cfg c)])
       \<and> (\<forall>t b. lookup g t = Some (Unary b, InFlight) \<longrightarrow>
            (\<forall>rp. closes cfg g (Respond t rp) t (outcome_of (proxy_chat_completions cfg b rp)))
            \<and> closes cfg g (Cancel t) t (Raised CancelledError))
       \<and> (\<forall>t b. lookup g t = Some (Stream b, InFlight) \<longrightarrow>
            (\<forall>rp e. open_stream cfg b rp = Inl e \<longrightarrow> closes cfg g (Respond t rp) t (Raised e))
            \<and> closes cfg g (Cancel t) t (Raised CancelledError))
       \<and> (\<forall>t b. lookup g t = Some (Stream b, Streaming) \<longrightarrow>
            closes cfg g (EndOfStream t) t Exhausted
            \<and> (\<forall>m. closes cfg g (StreamError t m) t (Raised (RequestError m)))
            \<and> closes cfg g (Cancel t) t (Raised CancelledError))"
proof -
  from pos have nn: "0 \<le> max_concurrent_requests cfg" by simp
  have ok: "gate_ok cfg g" and tr: "trace_ok cfg g"
    using reachable_ok [OF nn start run] by simp_all
  have chat: "gated [] (actions_of t (trace g))
      \<and> (finished s \<and> actions_of t (trace g) \<noteq> [] \<longrightarrow> last (actions_of t (trace g)) = Release t)"
    if t: "lookup g t = Some (c, s)" and c: "chat_call c" for t c s
  proof -
    from tr have "task_ok cfg g t" by (simp add: trace_ok_def)
    then have pt: "permit_trace (backend_request cfg c) t s (actions_of t (trace g))"
      using t c by (rule task_okD_chat)
    show ?thesis using permit_trace_gated [OF pt] permit_trace_released pt by (cases s) auto
  qed
  have other: "actions_of t (trace g) = [BackendCall t (backend_request cfg c)]"
    if t: "lookup g t = Some (c, s)" and c: "\<not> chat_call c" for t c s
  proof -
    from tr have "task_ok cfg g t" by (simp add: trace_ok_def)
    from task_okD_other [OF this t c] show ?thesis by simp
  qed
  have c1: "\<forall>t c s. lookup g t = Some (c, s) \<and> chat_call c \<longrightarrow>
            gated [] (actions_of t (trace g))
            \<and> (finished s \<and> actions_of t (trace g) \<noteq> [] \<longrightarrow>
                 last (actions_of t (trace g)) = Release t)"
    using chat by blast
  have c2: "\<forall>t c s. lookup g t = Some (c, s) \<and> \<not> chat_call c \<longrightarrow>
            actions_of t (trace g) = [BackendCall t (backend_request cfg c)]"
    using other by blast
  have c3: "\<forall>t b. lookup g t = Some (Unary b, InFlight) \<longrightarrow>
            (\<forall>rp. closes cfg g (Respond t rp) t (outcome_of (proxy_chat_completions cfg b rp)))
            \<and> closes cfg g (Cancel t) t (Raised CancelledError)"
    using unary_closes [OF ok tr] by blast
  have c4: "\<forall>t b. lookup g t = Some (Stream b, InFlight) \<longrightarrow>
            (\<forall>rp e. open_stream cfg b rp = Inl e \<longrightarrow> closes cfg g (Respond t rp) t (Raised e))
            \<and> closes cfg g (Cancel t) t (Raised CancelledError)"
    using opening_stream_closes [OF ok tr] by blast
  have c5: "\<forall>t b. lookup g t = Some (Stream b, Streaming) \<longrightarrow>
            closes cfg g (EndOfStream t) t Exhausted
            \<and> (\<forall>m. closes cfg g (StreamError t m) t (Raised (RequestError m)))
            \<and> closes cfg g (Cancel t) t (Raised CancelledError)"
    using streaming_closes [OF ok tr] by blast
  show ?thesis by (intro conjI c1 c2 c3 c4 c5)
qed




section \<open>The properties on sample runs\<close>

lemma open_stream_opened: "open_stream cfg b stream_opened = Inr ()"
  by (simp add: open_stream_def stream_opened_def send_def and_then_def raise_for_status_def
      is_success_def)


lemma run_stream_session: "run demo_settings stream_session started = Some streamed"
  by (simp add: stream_session_def stream_start_def started_def streamed_def hello_call_def
      gate_defs relay_def open_stream_opened)

lemma run_compressed: "run demo_settings compressed_stream started = Some decompressed"
  by (simp add: compressed_stream_def started_def decompressed_def hello_call_def gate_defs
      relay_def open_stream_opened gunzipped_def)

lemma run_forwarded:
  "run demo_settings [Arrive 0 (Fallback ''POST'' ''completions'' completion_body)] started
     = Some forwarded"
  by (simp add: started_def forwarded_def gate_defs demo_settings_def)

lemma oom_outcome:
  "proxy_chat_completions demo_settings b (Answered oom)
     = Inl (HTTPStatusError (status_message oom_response) oom_response)"
  by (simp add: proxy_chat_completions_cases oom_def oom_response_def demo_settings_def)

lemma completion_outcome:
  "proxy_chat_completions demo_settings b (Answered completion_ok) = Inr completion_json"
  by (simp add: proxy_chat_completions_cases completion_ok_def)

lemma run_batch: "run demo_settings batch started = Some drained"
  by (simp add: batch_def started_def drained_def hello_call_def gate_defs relay_def
      open_stream_opened oom_outcome completion_outcome proxy_chat_completions_cases)

lemma pos_demo: "0 < max_concurrent_requests demo_settings"
  by (simp add: demo_settings_def)

text \<open>C2 on the sample batch, whose calls end by an answer, an HTTP error, a network error
  and a cancellation, and on each way out of the guarded section from the state with two
  calls in flight and one waiting.\<close>

theorem permit_accounting_witness:
  "0 < max_concurrent_requests demo_settings
   \<and> lifespan_startup demo_settings = Inr started
   \<and> run demo_settings batch started = Some drained
   \<and> lookup drained 0 = Some (Unary hello_body, Finished (Returned completion_json))
   \<and> count_list (trace drained) (Acquire 0) \<le> 1
   \<and> count_list (trace drained) (Release 0) = count_list (trace drained) (Acquire 0)
   \<and> available_slots drained = Some (max_concurrent_requests demo_settings)
   \<and> run demo_settings three_calls started = Some busy
   \<and> closes demo_settings busy (Respond 0 (Answered completion_ok)) 0 (Returned completion_json)
   \<and> closes demo_settings busy (Respond 0 (Answered oom)) 0
        (Raised (HTTPStatusError (status_message oom_response) oom_response))
   \<and> closes demo_settings busy (Respond 0 (Unreachable ''All connection attempts failed'')) 0
        (Raised (RequestError ''All connection attempts failed''))
   \<and> closes demo_settings busy (Cancel 0) 0 (Raised CancelledError)
   \<and> abandons demo_settings busy 2"
proof -
  note inst = permit_accounting [OF pos_demo started_demo run_batch]
  note inst' = permit_accounting [OF pos_demo started_demo run_three_calls]
  have zero: "lookup drained 0 = Some (Unary hello_body, Finished (Returned completion_json))"
    by (simp add: lookup_def drained_def)
  have over: "\<forall>t c s. lookup drained t = Some (c, s) \<longrightarrow> finished s"
    by (auto simp: lookup_def drained_def split: if_splits)
  from inst [THEN conjunct1, rule_format, of 0 "Unary hello_body"
      "Finished (Returned completion_json)"] zero
  have counts: "count_list (trace drained) (Acquire 0) \<le> 1
      \<and> count_list (trace drained) (Release 0) = count_list (trace drained) (Acquire 0)"
    by simp
  from inst [THEN conjunct2, THEN conjunct1] over
  have slots: "available_slots drained = Some (max_concurrent_requests demo_settings)" by blast
  have busy0: "lookup busy 0 = Some (Unary hello_body, InFlight)"
    and busy2: "lookup busy 2 = Some (Unary hello_body, Queued)"
    by (simp_all add: lookup_def busy_def)
  note unary = inst' [THEN conjunct2, THEN conjunct2, THEN conjunct2, THEN conjunct1,
      rule_format, OF busy0]
  from unary [THEN conjunct1, rule_format, of "Answered completion_ok"]
  have ok: "closes demo_settings busy (Respond 0 (Answered completion_ok)) 0
      (Returned completion_json)"
    by (simp add: completion_outcome)
  from unary [THEN conjunct1, rule_format, of "Answered oom"]
  have err: "closes demo_settings busy (Respond 0 (Answered oom)) 0
      (Raised (HTTPStatusError (status_message oom_response) oom_response))"
    by (simp add: oom_outcome)
  from unary [THEN conjunct1, rule_format, of "Unreachable ''All connection attempts failed''"]
  have net: "closes demo_settings busy (Respond 0 (Unreachable ''All connection attempts failed'')) 0
      (Raised (RequestError ''All connection attempts failed''))"
    by (simp add: proxy_chat_completions_cases)
  from unary have cancel: "closes demo_settings busy (Cancel 0) 0 (Raised CancelledError)"
    by (rule conjunct2)
  from inst' busy2 have queued: "abandons demo_settings busy 2" by blast
  show ?thesis
    using pos_demo started_demo run_batch zero counts slots run_three_calls ok err net cancel
      queued
    by simp
qed

text \<open>C9 as amended, on a stream of two chunks with no content encoding.\<close>

theorem stream_relay_witness:
  "lifespan_startup demo_settings = Inr started
   \<and> run demo_settings stream_session started = Some streamed
   \<and> unencoded 0 stream_session
   \<and> yielded (actions_of 0 (trace streamed)) = [''data: a'', ''data: b'']
   \<and> received 0 stream_session = [''data: a'', ''data: b'']
   \<and> concat (yielded (actions_of 0 (trace streamed))) = ''data: adata: b''"
proof -
  note inst = stream_relay [OF started_demo run_stream_session, of 0]
  have plain: "unencoded 0 stream_session"
    and got: "received 0 stream_session = [''data: a'', ''data: b'']"
    by (simp_all add: stream_session_def stream_start_def)
  from inst [THEN conjunct2, THEN conjunct1] plain
  have "yielded (actions_of 0 (trace streamed)) = filter (\<lambda>x. x \<noteq> []) (received 0 stream_session)"
    by blast
  then have "yielded (actions_of 0 (trace streamed)) = [''data: a'', ''data: b'']"
    by (simp add: got)
  then show ?thesis using started_demo run_stream_session plain got by simp
qed

text \<open>C9, as stated, fails: when the backend compresses the body, the chunk yielded is not
  the chunk received.\<close>

theorem compressed_stream_counterexample:
  "lifespan_startup demo_settings = Inr started
   \<and> run demo_settings compressed_stream started = Some decompressed
   \<and> received 0 compressed_stream = [gzipped]
   \<and> yielded (actions_of 0 (trace decompressed)) = [gunzipped]
   \<and> yielded (actions_of 0 (trace decompressed)) \<noteq> received 0 compressed_stream
   \<and> concat (yielded (actions_of 0 (trace decompressed))) \<noteq> concat (received 0 compressed_stream)"
  using started_demo run_compressed
  by (simp add: compressed_stream_def decompressed_def gzipped_def gunzipped_def)

text \<open>C4 as amended, on the sample batch, on the ways out of a call in flight, and on a
  forwarded text completion.\<close>

theorem chat_calls_gated_witness:
  "0 < max_concurrent_requests demo_settings
   \<and> lifespan_startup demo_settings = Inr started
   \<and> run demo_settings batch started = Some drained
   \<and> gated [] (actions_of 0 (trace drained))
   \<and> last (actions_of 0 (trace drained)) = Release 0
   \<and> run demo_settings three_calls started = Some busy
   \<and> closes demo_settings busy (Respond 0 (Answered completion_ok)) 0 (Returned completion_json)
   \<and> closes demo_settings busy (Cancel 1) 1 (Raised CancelledError)
   \<and> actions_of 0 (trace forwarded)
       = [BackendCall 0 (backend_request demo_settings
            (Fallback ''POST'' ''completions'' completion_body))]"
proof -
  note inst = chat_calls_gated [OF pos_demo started_demo run_batch]
  note inst' = chat_calls_gated [OF pos_demo started_demo run_forwarded]
  note inst'' = chat_calls_gated [OF pos_demo started_demo run_three_calls]
  have zero: "lookup drained 0 = Some (Unary hello_body, Finished (Returned completion_json))"
    by (simp add: lookup_def drained_def)
  have ne: "actions_of 0 (trace drained) \<noteq> []" by (simp add: drained_def)
  from inst [THEN conjunct1, rule_format, of 0 "Unary hello_body"
      "Finished (Returned completion_json)"] zero ne
  have a: "gated [] (actions_of 0 (trace drained))
      \<and> last (actions_of 0 (trace drained)) = Release 0" by simp
  have fwd: "lookup forwarded 0 = Some (Fallback ''POST'' ''completions'' completion_body, InFlight)"
    by (simp add: lookup_def forwarded_def)
  from inst' [THEN conjunct2, THEN conjunct1, rule_format,
      of 0 "Fallback ''POST'' ''completions'' completion_body" InFlight] fwd
  have b: "actions_of 0 (trace forwarded)
       = [BackendCall 0 (backend_request demo_settings
            (Fallback ''POST'' ''completions'' completion_body))]"
    by simp
  have busy0: "lookup busy 0 = Some (Unary hello_body, InFlight)"
    and busy1: "lookup busy 1 = Some (Stream hello_body, InFlight)"
    by (simp_all add: lookup_def busy_def)
  from inst'' [THEN conjunct2, THEN conjunct2, THEN conjunct1, rule_format, OF busy0,
      THEN conjunct1, rule_format, of "Answered completion_ok"]
  have c: "closes demo_settings busy (Respond 0 (Answered completion_ok)) 0
      (Returned completion_json)"
    by (simp add: completion_outcome)
  from inst'' [THEN conjunct2, THEN conjunct2, THEN conjunct2, THEN conjunct1, rule_format,
      OF busy1]
  have d: "closes demo_settings busy (Cancel 1) 1 (Raised CancelledError)" by (rule conjunct2)
  show ?thesis using a b c d pos_demo started_demo run_batch run_three_calls by simp
qed

text \<open>C4, as stated, fails: a text completion through the fallback route reaches the backend
  with no permit taken.\<close>

theorem fallback_ungated_counterexample:
  "lifespan_startup demo_settings = Inr started
   \<and> run demo_settings [Arrive 0 (Fallback ''POST'' ''completions'' completion_body)] started
       = Some forwarded
   \<and> trace forwarded
       = [BackendCall 0 \<lparr>http_method = ''POST'',
            target = ''http://127.0.0.1:8080/v1/completions'',
            payload = RawBody completion_body\<rparr>]
   \<and> \<not> gated [] (trace forwarded)"
  using started_demo run_forwarded by (simp add: forwarded_def)


end
